theory Spec2Isabelle
  imports Complex_Main "HOL-Library.Sublist"
begin

section \<open>Numbers and strings of the source language\<close>

text \<open>
  The source is TypeScript. Its numbers are IEEE 754 doubles. A finite double is a
  rational number, and every arithmetic operation of the source returns the double
  nearest to the exact result, a tie going to the even significand. The development
  keeps that: a number is the rational value of a double, \<open>rd\<close> rounds a rational to
  the nearest double, and \<open>fadd\<close>, \<open>fsub\<close>, \<open>fmul\<close> and \<open>fdiv\<close> are the four
  operations. A decimal literal such as \<open>0.7\<close> reads as \<open>rd (7 / 10)\<close>. Comparisons,
  \<open>Math.max\<close>, \<open>Math.min\<close>, \<open>Math.abs\<close>, \<open>Math.floor\<close> and \<open>Math.round\<close> are
  exact on doubles. Doubles below the normal range are rounded on their fixed grid. The
  values that are not finite are not numbers of the model: no value of this program
  comes near the largest double, and where the source can divide by zero the model says
  so.

  A string is a list of code units. A character of the model stands for a code unit
  below 256, so a text with a code unit above 255 is outside the model; the character
  classes below are the classes of the source's regular expressions, of \<open>trim\<close> and of
  \<open>toLowerCase\<close> on the code units below 256.
\<close>

type_synonym num = rat

definition pow2 :: "int \<Rightarrow> rat" where
  "pow2 e = (if 0 \<le> e then 2 ^ nat e else 1 / 2 ^ nat (- e))"

function ilog2 :: "rat \<Rightarrow> int" where
  \<comment> \<open>for a positive \<open>x\<close> the exponent \<open>e\<close> with \<open>2 ^ e \<le> x < 2 ^ (e + 1)\<close>\<close>
  "ilog2 x = (if x \<le> 0 then 0
              else if 2 \<le> x then ilog2 (x / 2) + 1
              else if x < 1 then ilog2 (2 * x) - 1
              else 0)"
  by pat_completeness auto
termination
proof (relation "measure (\<lambda>x. nat (2 * \<lceil>1 / x\<rceil> + \<lceil>x\<rceil>))")
  show "wf (measure (\<lambda>x. nat (2 * \<lceil>1 / x\<rceil> + \<lceil>x\<rceil>)))" by simp
next
  fix x :: rat
  assume "\<not> x \<le> 0" and x: "2 \<le> x"
  have a: "\<lceil>1 / (x / 2)\<rceil> = 1" using x by (intro ceiling_unique) (simp_all add: field_simps)
  have b: "\<lceil>1 / x\<rceil> = 1" using x by (intro ceiling_unique) (simp_all add: field_simps)
  have c: "\<lceil>x / 2\<rceil> < \<lceil>x\<rceil>"
  proof -
    have "x / 2 \<le> x - 1" using x by simp
    then have "\<lceil>x / 2\<rceil> \<le> \<lceil>x - 1\<rceil>" by (rule ceiling_mono)
    then show ?thesis by simp
  qed
  have d: "2 \<le> \<lceil>x\<rceil>" using x by (simp add: le_ceiling_iff)
  show "(x / 2, x) \<in> measure (\<lambda>x. nat (2 * \<lceil>1 / x\<rceil> + \<lceil>x\<rceil>))"
    using c d by (simp only: in_measure a b; linarith?)
next
  fix x :: rat
  assume p: "\<not> x \<le> 0" and "\<not> 2 \<le> x" and x: "x < 1"
  let ?y = "1 / x"
  have y: "1 < ?y" using p x by simp
  have cx: "\<lceil>x\<rceil> = 1" using p x by (intro ceiling_unique) simp_all
  have c2: "\<lceil>2 * x\<rceil> \<le> 2" using x by (simp add: ceiling_le_iff)
  have half: "1 / (2 * x) = ?y / 2" by simp
  have cy: "2 \<le> \<lceil>?y\<rceil>" using y by (simp add: le_ceiling_iff)
  show "(2 * x, x) \<in> measure (\<lambda>x. nat (2 * \<lceil>1 / x\<rceil> + \<lceil>x\<rceil>))"
  proof (cases "1 < 2 * x")
    case True
    then have "?y / 2 \<le> 1" using p by (simp add: field_simps)
    moreover have "0 < ?y / 2" using p by simp
    ultimately have "\<lceil>?y / 2\<rceil> = 1" by (intro ceiling_unique) simp_all
    then show ?thesis using c2 cy by (simp only: in_measure half cx; linarith?)
  next
    case False
    then have "\<lceil>2 * x\<rceil> \<le> 1" by (simp add: ceiling_le_iff)
    moreover have "\<lceil>?y / 2\<rceil> < \<lceil>?y\<rceil>"
    proof -
      have "?y / 2 \<le> ?y - 1" using False p by (simp add: field_simps)
      then have "\<lceil>?y / 2\<rceil> \<le> \<lceil>?y - 1\<rceil>" by (rule ceiling_mono)
      then show ?thesis by simp
    qed
    ultimately show ?thesis using cy by (simp only: in_measure half cx; linarith?)
  qed
qed

declare ilog2.simps [simp del]

definition roundEven :: "rat \<Rightarrow> int" where
  \<comment> \<open>the nearest integer, a tie going to the even one\<close>
  "roundEven y =
     (let f = \<lfloor>y\<rfloor>; d = y - of_int f
      in if d < 1 / 2 then f else if 1 / 2 < d then f + 1 else if even f then f else f + 1)"

definition expo :: "rat \<Rightarrow> int" where
  \<comment> \<open>the exponent of the last place of the doubles around \<open>x\<close>: 53 significant bits,
      and the fixed grid \<open>2 ^ -1074\<close> below \<open>2 ^ -1022\<close>\<close>
  "expo x = max (ilog2 \<bar>x\<bar>) (- 1022) - 52"

definition rd :: "rat \<Rightarrow> num" where
  \<comment> \<open>the double nearest to \<open>x\<close>\<close>
  "rd x =
     (if x = 0 then 0
      else sgn x * (of_int (roundEven (\<bar>x\<bar> / pow2 (expo x))) * pow2 (expo x)))"

definition fadd :: "num \<Rightarrow> num \<Rightarrow> num" where
  "fadd x y = rd (x + y)"

definition fsub :: "num \<Rightarrow> num \<Rightarrow> num" where
  "fsub x y = rd (x - y)"

definition fmul :: "num \<Rightarrow> num \<Rightarrow> num" where
  "fmul x y = rd (x * y)"

definition fdiv :: "num \<Rightarrow> num \<Rightarrow> num" where
  \<comment> \<open>for a divisor other than 0\<close>
  "fdiv x y = rd (x / y)"

definition math_round :: "num \<Rightarrow> int" where
  \<comment> \<open>\<open>Math.round\<close>: the nearest integer, a tie going up; its value is a double as it is\<close>
  "math_round x = \<lfloor>x + 1 / 2\<rfloor>"

definition round1 :: "num \<Rightarrow> num" where
  \<comment> \<open>\<open>Math.round(x * 10) / 10\<close>\<close>
  "round1 x = fdiv (of_int (math_round (fmul x 10))) 10"

definition total :: "num list \<Rightarrow> num" where
  \<comment> \<open>\<open>xs.reduce((sum, t) => sum + t, 0)\<close>\<close>
  "total xs = foldl (\<lambda>sum t. fadd sum t) 0 xs"

definition isSpace :: "char \<Rightarrow> bool" where
  \<comment> \<open>the white-space class of the regular expressions and of \<open>trim\<close>: tab, line feed,
      vertical tab, form feed, carriage return, space and the no-break space\<close>
  "isSpace c = (c \<in> set [CHR 0x09, CHR 0x0A, CHR 0x0B, CHR 0x0C, CHR 0x0D, CHR '' '', CHR 0xA0])"

function splitSpaces :: "string \<Rightarrow> string list" where
  \<comment> \<open>\<open>split\<close> at white space: the pieces between the maximal runs of white space; a run at
      either end leaves an empty piece there, and the empty string gives one empty piece.\<close>
  "splitSpaces s =
     (let w = takeWhile (\<lambda>c. \<not> isSpace c) s;
          r = dropWhile (\<lambda>c. \<not> isSpace c) s
      in if r = [] then [w] else w # splitSpaces (dropWhile isSpace r))"
  by pat_completeness auto
termination
proof (relation "measure length")
  show "wf (measure length)" by simp
next
  fix s :: string and w r
  assume r: "r = dropWhile (\<lambda>c. \<not> isSpace c) s" and ne: "r \<noteq> []"
  from ne obtain c cs where rc: "r = c # cs" by (cases r) auto
  with r have "isSpace c" by (metis hd_dropWhile list.sel(1) ne)
  then have "length (dropWhile isSpace r) \<le> length cs"
    using rc by (simp add: length_dropWhile_le)
  moreover have "length r \<le> length s" using r by (simp add: length_dropWhile_le)
  ultimately show "(dropWhile isSpace r, s) \<in> measure length" using rc by simp
qed

declare splitSpaces.simps [simp del]

fun includesStr :: "string \<Rightarrow> string \<Rightarrow> bool" where
  \<comment> \<open>\<open>s.includes(sub)\<close>\<close>
  "includesStr [] sub = (sub = [])"
| "includesStr (c # cs) sub = (prefix sub (c # cs) \<or> includesStr cs sub)"

definition toLowerChar :: "char \<Rightarrow> char" where
  \<comment> \<open>the capital letters below 256: \<open>A\<close> to \<open>Z\<close>, and 192 to 222 but for the
      multiplication sign 215\<close>
  "toLowerChar c =
     (let n = (of_char c :: nat)
      in if (65 \<le> n \<and> n \<le> 90) \<or> (192 \<le> n \<and> n \<le> 222 \<and> n \<noteq> 215)
         then char_of (n + 32) else c)"

definition toLowerCase :: "string \<Rightarrow> string" where
  "toLowerCase s = map toLowerChar s"

definition isPunctuation :: "char \<Rightarrow> bool" where
  \<comment> \<open>the class \<open>[.,!?;:]\<close>\<close>
  "isPunctuation c = (c \<in> set ''.,!?;:'')"

section \<open>The timing allocator: \<open>calculateOptimalTimings\<close>\<close>

definition MIN_TARGET_DURATION :: num where
  "MIN_TARGET_DURATION = 25"

definition MAX_TARGET_DURATION :: num where
  "MAX_TARGET_DURATION = 40"

definition wordCount :: "string \<Rightarrow> nat" where
  "wordCount segment = length (splitSpaces segment)"

definition charCount :: "string \<Rightarrow> nat" where
  "charCount segment = length segment"

definition punctuationCount :: "string \<Rightarrow> nat" where
  "punctuationCount segment = length (filter isPunctuation segment)"

definition baseWeight :: "string \<Rightarrow> num" where
  "baseWeight segment =
     fadd (fadd (fmul (of_nat (wordCount segment)) (rd (7 / 10)))
                (fmul (of_nat (charCount segment)) (rd (2 / 100))))
          (fmul (of_nat (punctuationCount segment)) (rd (5 / 10)))"

definition hasEmphasis :: "string \<Rightarrow> bool" where
  "hasEmphasis segment =
     (includesStr segment ''!'' \<or> includesStr (toLowerCase segment) ''important''
      \<or> includesStr (toLowerCase segment) ''critical''
      \<or> includesStr (toLowerCase segment) ''key'')"

definition hasCallToAction :: "string \<Rightarrow> bool" where
  "hasCallToAction segment =
     (includesStr (toLowerCase segment) ''call to action''
      \<or> includesStr (toLowerCase segment) ''contact''
      \<or> includesStr (toLowerCase segment) ''today''
      \<or> includesStr (toLowerCase segment) ''now'')"

definition segmentWeight :: "string \<Rightarrow> num" where
  \<comment> \<open>the body of the first loop: the statements on \<open>weight\<close>, in the source's order\<close>
  "segmentWeight segment =
     (let weight = baseWeight segment;
          weight = (if hasEmphasis segment then fmul weight (rd (12 / 10)) else weight);
          weight = (if hasCallToAction segment then fmul weight (rd (11 / 10)) else weight)
      in max weight 2)"

fun weightLoop :: "string list \<Rightarrow> num list \<times> num \<Rightarrow> num list \<times> num" where
  \<comment> \<open>\<open>for (const segment of voiceoverSegments)\<close>, on the pair
      \<open>(segmentWeights, totalWeight)\<close>\<close>
  "weightLoop [] acc = acc"
| "weightLoop (segment # rest) (segmentWeights, totalWeight) =
     (let weight = segmentWeight segment
      in weightLoop rest (segmentWeights @ [weight], fadd totalWeight weight))"

definition avgWordsPerSegment :: "string list \<Rightarrow> num" where
  \<comment> \<open>for a list that is not empty\<close>
  "avgWordsPerSegment voiceoverSegments =
     fdiv (foldl (\<lambda>sum segment. fadd sum (of_nat (wordCount segment))) 0 voiceoverSegments)
          (of_nat (length voiceoverSegments))"

definition targetDuration :: "string list \<Rightarrow> num" where
  "targetDuration voiceoverSegments =
     (let complexityRatio = min (fdiv (avgWordsPerSegment voiceoverSegments) 15) 1
      in fadd MIN_TARGET_DURATION
           (fmul (fsub MAX_TARGET_DURATION MIN_TARGET_DURATION) complexityRatio))"

definition initialTimings :: "string list \<Rightarrow> num list" where
  \<comment> \<open>the second loop: one clamped, rounded share of the target per weight\<close>
  "initialTimings voiceoverSegments =
     (let (segmentWeights, totalWeight) = weightLoop voiceoverSegments ([], 0);
          target = targetDuration voiceoverSegments
      in foldl (\<lambda>timings i.
                 let proportionalDuration = fmul (fdiv (segmentWeights ! i) totalWeight) target;
                     finalDuration = max (rd (25 / 10)) (min 12 proportionalDuration)
                 in timings @ [round1 finalDuration])
           [] [0..<length segmentWeights])"

definition needsRescale :: "num \<Rightarrow> bool" where
  \<comment> \<open>the guard of the fine-tuning step\<close>
  "needsRescale actualTotal =
     (actualTotal < MIN_TARGET_DURATION \<or> actualTotal > MAX_TARGET_DURATION)"

definition rescaleLoop :: "num \<Rightarrow> num list \<Rightarrow> num list" where
  \<comment> \<open>\<open>for (i = 0; i < timings.length; i++) timings[i] = ...\<close>, updating in place\<close>
  "rescaleLoop adjustmentFactor timings =
     foldl (\<lambda>ts i. ts[i := round1 (fmul (ts ! i) adjustmentFactor)]) timings [0..<length timings]"

definition calculateOptimalTimings :: "string list \<Rightarrow> num list" where
  "calculateOptimalTimings voiceoverSegments =
     (let timings = initialTimings voiceoverSegments;
          actualTotal = total timings
      in if needsRescale actualTotal
         then rescaleLoop (fdiv (targetDuration voiceoverSegments) actualTotal) timings
         else timings)"

text \<open>The weight as the specification words it: the floor at 2 first, the boosts after.\<close>

definition specWeight :: "string \<Rightarrow> num" where
  "specWeight segment =
     (let weight = max (baseWeight segment) 2;
          weight = (if hasEmphasis segment then fmul weight (rd (12 / 10)) else weight)
      in if hasCallToAction segment then fmul weight (rd (11 / 10)) else weight)"

section \<open>The compositor: duration reconciliation and the filter graph\<close>

text \<open>
  The arithmetic of \<open>createVideoWithFFmpeg\<close>. The argument \<open>n\<close> of the definitions
  below is \<open>imagePaths.length\<close>.
\<close>

definition fadeDuration :: "nat \<Rightarrow> num" where
  "fadeDuration n = (if n > 1 then 1 else 0)"

definition numCrossfades :: "nat \<Rightarrow> nat" where
  \<comment> \<open>\<open>Math.max(0, imagePaths.length - 1)\<close>\<close>
  "numCrossfades n = nat (max 0 (int n - 1))"

definition totalCrossfadeDuration :: "nat \<Rightarrow> num" where
  "totalCrossfadeDuration n = fmul (of_nat (numCrossfades n)) (fadeDuration n)"

definition rawVideoDuration :: "num list \<Rightarrow> num" where
  "rawVideoDuration timings = total timings"

definition calculatedVideoDuration :: "nat \<Rightarrow> num list \<Rightarrow> num" where
  "calculatedVideoDuration n timings = fsub (rawVideoDuration timings) (totalCrossfadeDuration n)"

definition encodeTargetDuration :: "num \<Rightarrow> num" where
  \<comment> \<open>the compositor's own \<open>targetDuration\<close>: \<open>Math.min(40, Math.max(25, audioDuration))\<close>\<close>
  "encodeTargetDuration audioDuration = min 40 (max 25 audioDuration)"

definition targetRawDuration :: "nat \<Rightarrow> num \<Rightarrow> num" where
  "targetRawDuration n audioDuration =
     fadd (encodeTargetDuration audioDuration) (totalCrossfadeDuration n)"

definition scaleBy :: "num \<Rightarrow> num \<Rightarrow> num" where
  \<comment> \<open>\<open>t => t * scaleFactor\<close>\<close>
  "scaleBy scaleFactor t = fmul t scaleFactor"

definition adjustedTimings :: "nat \<Rightarrow> num \<Rightarrow> num list \<Rightarrow> num list option" where
  \<comment> \<open>\<open>None\<close>: the raw duration is 0 and the scale factor is not a finite number; the
      source goes on with timings that are \<open>NaN\<close> or \<open>Infinity\<close>, which are not numbers of
      the model\<close>
  "adjustedTimings n audioDuration timings =
     (if \<bar>fsub audioDuration (calculatedVideoDuration n timings)\<bar> > rd (5 / 10)
      then (if rawVideoDuration timings = 0 then None
            else (let scaleFactor = fdiv (targetRawDuration n audioDuration) (rawVideoDuration timings)
                  in Some (map (scaleBy scaleFactor) timings)))
      else Some timings)"

text \<open>The clamp of the specification's wording.\<close>

definition clamp :: "num \<Rightarrow> num \<Rightarrow> num \<Rightarrow> num" where
  "clamp x lo hi = (if x < lo then lo else if hi < x then hi else x)"

text \<open>
  The filter graph. The source builds one string, a filter chain per statement ended by
  \<open>;\<close>; here each statement is a value, with its numbers before they are printed
  (\<open>toFixed(3)\<close>) and its pad labels \<open>[i:v]\<close>, \<open>[vi]\<close>, \<open>[fadei]\<close>, \<open>[outv]\<close>.
\<close>

datatype label = InputV nat | SegV nat | FadeV nat | OutV

datatype filterStmt =
    SegmentChain label num num int num label
    \<comment> \<open>scale, pad, zoompan from \<open>zoomStart\<close> to \<open>zoomEnd\<close> over \<open>totalFrames\<close>, trim to
        \<open>duration\<close>\<close>
  | Xfade label label num num label
    \<comment> \<open>\<open>xfade=transition=fade:duration=..:offset=..\<close>\<close>
  | FormatOut label label

definition segmentChain :: "num list \<Rightarrow> filterStmt list \<Rightarrow> nat \<Rightarrow> filterStmt list" where
  \<comment> \<open>one round of the loop over the images\<close>
  "segmentChain adjusted filterComplex i =
     (let zoomStart = 1; zoomEnd = rd (105 / 100);
          duration = adjusted ! i;
          totalFrames = \<lfloor>fmul duration 30\<rfloor>
      in filterComplex @ [SegmentChain (InputV i) zoomStart zoomEnd totalFrames duration (SegV i)])"

definition segmentChains :: "nat \<Rightarrow> num list \<Rightarrow> filterStmt list" where
  "segmentChains n adjusted = foldl (segmentChain adjusted) [] [0..<n]"

fun xfadeStep ::
  "num \<Rightarrow> num list \<Rightarrow> filterStmt list \<times> label \<times> num \<Rightarrow> nat \<Rightarrow> filterStmt list \<times> label \<times> num" where
  \<comment> \<open>one round of the transition loop, on \<open>(filterComplex, transitionChain, cumulativeOffset)\<close>\<close>
  "xfadeStep fade adjusted (filterComplex, transitionChain, cumulativeOffset) i =
     (let cumulativeOffset = fadd cumulativeOffset (fsub (adjusted ! (i - 1)) fade);
          fadeOffset = max 0 cumulativeOffset
      in if i = 1
         then (filterComplex @ [Xfade transitionChain (SegV i) fade fadeOffset (FadeV i)],
               FadeV i, cumulativeOffset)
         else (filterComplex @ [Xfade transitionChain (SegV i) fade fadeOffset (FadeV i)],
               FadeV i, cumulativeOffset))"

definition buildFilterComplex :: "nat \<Rightarrow> num list \<Rightarrow> filterStmt list" where
  "buildFilterComplex n adjusted =
     (let filterComplex = segmentChains n adjusted
      in if n > 1
         then (case foldl (xfadeStep (fadeDuration n) adjusted) (filterComplex, SegV 0, 0) [1..<n] of
                 (filterComplex, transitionChain, cumulativeOffset) \<Rightarrow>
                   filterComplex @ [FormatOut transitionChain OutV])
         else filterComplex @ [FormatOut (SegV 0) OutV])"

fun xfadeDurations :: "filterStmt list \<Rightarrow> num list" where
  "xfadeDurations [] = []"
| "xfadeDurations (Xfade a b d off out # fs) = d # xfadeDurations fs"
| "xfadeDurations (f # fs) = xfadeDurations fs"

fun xfadeOffsets :: "filterStmt list \<Rightarrow> num list" where
  "xfadeOffsets [] = []"
| "xfadeOffsets (Xfade a b d off out # fs) = off # xfadeOffsets fs"
| "xfadeOffsets (f # fs) = xfadeOffsets fs"

text \<open>
  Two abbreviations for stating what the transition loop has computed after \<open>k\<close> rounds:
  the label the chain ends in, and the running \<open>cumulativeOffset\<close>, the sum in doubles
  of the first \<open>k\<close> timings, each less the fade.
\<close>

definition chainLabel :: "nat \<Rightarrow> label" where
  "chainLabel k = (if k = 0 then SegV 0 else FadeV k)"

definition offsetStep :: "num \<Rightarrow> num list \<Rightarrow> num \<Rightarrow> nat \<Rightarrow> num" where
  "offsetStep fade adjusted cumulativeOffset j = fadd cumulativeOffset (fsub (adjusted ! j) fade)"

definition offsetSum :: "num \<Rightarrow> num list \<Rightarrow> nat \<Rightarrow> num" where
  "offsetSum fade adjusted k = foldl (offsetStep fade adjusted) 0 [0..<k]"

section \<open>The progress broadcaster\<close>

text \<open>
  \<open>videoSessions\<close> is a \<open>Map\<close> from session identifiers to \<open>Set\<close>s of sockets. A
  \<open>Set\<close> keeps its elements in insertion order, which is the order of the sends, so
  it is a duplicate-free list here. A socket is a number; \<open>readyState\<close> tells whether it
  is \<open>OPEN\<close>; \<open>sent\<close> is the log of the \<open>ws.send\<close> calls.
\<close>

datatype completionData =
    VideoData string num "num list"
    \<comment> \<open>\<open>{ videoUrl, duration, optimizedTimings }\<close>\<close>
  | ErrorData string string string
    \<comment> \<open>\<open>{ error: { code, message, details } }\<close>\<close>

record progressData =
  pd_type :: string
  pd_sessionId :: string
  pd_step :: string
  pd_progress :: num
  pd_message :: string
  pd_timestamp :: string
  pd_data :: "completionData option"

record server =
  videoSessions :: "string \<rightharpoonup> nat list"
  readyState :: "nat \<Rightarrow> bool"
  sent :: "(nat \<times> progressData) list"

record clientMessage =
  cm_type :: string
  cm_sessionId :: string

definition initialServer :: server where
  "initialServer = \<lparr>videoSessions = Map.empty, readyState = (\<lambda>ws. False), sent = []\<rparr>"

definition setAdd :: "nat list \<Rightarrow> nat \<Rightarrow> nat list" where
  "setAdd clients ws = (if ws \<in> set clients then clients else clients @ [ws])"

definition setDelete :: "nat list \<Rightarrow> nat \<Rightarrow> nat list" where
  "setDelete clients ws = removeAll ws clients"

definition onConnection :: "server \<Rightarrow> nat \<Rightarrow> server" where
  "onConnection st ws = st\<lparr>readyState := (readyState st)(ws := True)\<rparr>"

definition onMessage :: "server \<Rightarrow> nat \<Rightarrow> clientMessage \<Rightarrow> server" where
  \<comment> \<open>the \<open>message\<close> handler, on a message that parsed; one that does not parse changes
      nothing\<close>
  "onMessage st ws message =
     (if cm_type message = ''subscribe'' \<and> cm_sessionId message \<noteq> []
      then (let sessions = (if videoSessions st (cm_sessionId message) = None
                            then (videoSessions st)(cm_sessionId message \<mapsto> [])
                            else videoSessions st);
                clients = (case sessions (cm_sessionId message) of None \<Rightarrow> [] | Some cs \<Rightarrow> cs)
            in st\<lparr>videoSessions := sessions(cm_sessionId message \<mapsto> setAdd clients ws)\<rparr>)
      else st)"

definition onClose :: "server \<Rightarrow> nat \<Rightarrow> server" where
  \<comment> \<open>the \<open>close\<close> handler: every session loses the socket, and a session left empty is
      deleted\<close>
  "onClose st ws =
     st\<lparr>videoSessions :=
          (\<lambda>sessionId. case videoSessions st sessionId of
                          None \<Rightarrow> None
                        | Some clients \<Rightarrow>
                            (let clients = setDelete clients ws
                             in if length clients = 0 then None else Some clients)),
        readyState := (readyState st)(ws := False)\<rparr>"

definition isTerminal :: "string \<Rightarrow> bool" where
  "isTerminal step = (step = ''completed'' \<or> step = ''error'')"

definition broadcastProgress ::
  "server \<Rightarrow> string \<Rightarrow> string \<Rightarrow> num \<Rightarrow> string \<Rightarrow> string \<Rightarrow> completionData option \<Rightarrow> server" where
  "broadcastProgress st sessionId step progress message timestamp completionData =
     (case videoSessions st sessionId of
        None \<Rightarrow> st
      | Some clients \<Rightarrow>
          (let progressData =
                 \<lparr>pd_type = (if isTerminal step then step else ''progress''),
                  pd_sessionId = sessionId, pd_step = step, pd_progress = progress,
                  pd_message = message, pd_timestamp = timestamp, pd_data = completionData\<rparr>;
               st = foldl (\<lambda>st ws. if readyState st ws
                                     then st\<lparr>sent := sent st @ [(ws, progressData)]\<rparr>
                                     else st) st clients
           in if isTerminal step
              then st\<lparr>videoSessions := (videoSessions st)(sessionId := None)\<rparr>
              else st))"

definition clientsOf :: "server \<Rightarrow> string \<Rightarrow> nat list" where
  \<comment> \<open>the sockets registered under a session identifier\<close>
  "clientsOf st sessionId = (case videoSessions st sessionId of None \<Rightarrow> [] | Some clients \<Rightarrow> clients)"

definition subscribeTo :: "string \<Rightarrow> clientMessage" where
  "subscribeTo sessionId = \<lparr>cm_type = ''subscribe'', cm_sessionId = sessionId\<rparr>"

inductive reachable :: "server \<Rightarrow> bool" where
  start: "reachable initialServer"
| connection: "reachable st \<Longrightarrow> reachable (onConnection st ws)"
| message: "reachable st \<Longrightarrow> reachable (onMessage st ws m)"
| close: "reachable st \<Longrightarrow> reachable (onClose st ws)"
| broadcast: "reachable st \<Longrightarrow> reachable (broadcastProgress st sessionId step progress msg ts d)"

section \<open>The pipeline: \<open>generateVideo\<close> and the request handler\<close>

text \<open>
  The file system is the set of paths that exist. The temporary files are named after
  \<open>Date.now()\<close>, the public video after a fresh identifier; a path keeps those parts:
  \<open>TmpVoiceover t\<close> is \<open>/tmp/voiceover_t.wav\<close>, \<open>TmpImage k t\<close> is
  \<open>/tmp/image_k_t.png\<close>, \<open>TmpVideo t\<close> is \<open>/tmp/video_t.mp4\<close> and
  \<open>PublicVideo name\<close> is \<open>public/videos/name\<close>.

  The services, the probe and the encoder are outside the program. What they answer in one
  run is the run's environment, a value of type \<open>env\<close>: one outcome for every branch the
  code distinguishes. An exception is its message. The callback \<open>onProgress\<close> appends
  the step and the progress to \<open>events\<close>; the display text, its third argument, is
  left out. \<open>unlinkSync\<close> is taken to succeed on a file that exists, and the probe's
  answer to be a finite number.
\<close>

datatype path = TmpVoiceover nat | TmpImage nat nat | TmpVideo nat | PublicVideo string

record imagePrompt =
  visual :: string
  voiceover :: string

datatype ttsOutcome =
    TtsNotOk string
  | TtsNoAudioUrl
  | AudioDownloadNotOk string
  | TtsOk nat

datatype imageOutcome =
    ImageNotOk string
  | ImageNoUrl
  | ImageDownloadNotOk string
  | ImageOk nat

datatype probeOutcome =
    ProbeOk num
  | ProbeExit "nat option"
  | ProbeSpawnError string

datatype encoderOutcome =
    EncoderTimeout string
  | EncoderClose "nat option" string
  | EncoderSpawnError string

record env =
  ttsResult :: ttsOutcome
  imageResult :: "nat \<Rightarrow> imageOutcome"
  audioProbeResult :: probeOutcome
  videoStamp :: nat
  encodeTimes :: "num list"
  outputWritten :: bool
  encoderResult :: encoderOutcome
  videoProbeResult :: probeOutcome
  videoId :: string
  requestProtocol :: string
  requestHost :: string

record ffmpegArgs =
  imageInputs :: "(num \<times> path) list"
  audioInput :: path
  filter_complex :: "filterStmt list"
  outputFile :: path

record world =
  files :: "path set"
  events :: "(string \<times> num) list"
  spawned :: "ffmpegArgs option list"

record videoGenerationResult =
  videoPath :: path
  duration :: num
  optimizedTimings :: "num list"

definition digitChar :: "nat \<Rightarrow> char" where
  "digitChar d = char_of (48 + d)"

fun showNat :: "nat \<Rightarrow> string" where
  "showNat n = (if n < 10 then [digitChar n] else showNat (n div 10) @ [digitChar (n mod 10)])"

declare showNat.simps [simp del]

definition showCode :: "nat option \<Rightarrow> string" where
  \<comment> \<open>an exit code in a template string; it is \<open>null\<close> when a signal ended the process\<close>
  "showCode code = (case code of None \<Rightarrow> ''null'' | Some n \<Rightarrow> showNat n)"

definition trim :: "string \<Rightarrow> string" where
  "trim s = rev (dropWhile isSpace (rev (dropWhile isSpace s)))"

definition emit :: "world \<Rightarrow> string \<Rightarrow> num \<Rightarrow> world" where
  "emit w step progress = w\<lparr>events := events w @ [(step, progress)]\<rparr>"

definition writeFile :: "world \<Rightarrow> path \<Rightarrow> world" where
  "writeFile w p = w\<lparr>files := insert p (files w)\<rparr>"

definition unlinkIfExists :: "world \<Rightarrow> path \<Rightarrow> world" where
  \<comment> \<open>\<open>if (fs.existsSync(p)) fs.unlinkSync(p)\<close>\<close>
  "unlinkIfExists w p = (if p \<in> files w then w\<lparr>files := files w - {p}\<rparr> else w)"

definition generateAudioFile :: "env \<Rightarrow> world \<Rightarrow> (string + path) \<times> world" where
  "generateAudioFile env w =
     (let w = emit w ''generating-audio'' 0
      in case ttsResult env of
           TtsNotOk statusText \<Rightarrow> (Inl (''TTS generation failed: '' @ statusText), w)
         | TtsNoAudioUrl \<Rightarrow>
             (let w = emit w ''generating-audio'' 50
              in (Inl ''No audio URL returned from TTS service'', w))
         | AudioDownloadNotOk statusText \<Rightarrow>
             (let w = emit w ''generating-audio'' 50;
                  w = emit w ''generating-audio'' 75
              in (Inl (''Failed to download audio: '' @ statusText), w))
         | TtsOk now \<Rightarrow>
             (let w = emit w ''generating-audio'' 50;
                  w = emit w ''generating-audio'' 75;
                  audioPath = TmpVoiceover now;
                  w = writeFile w audioPath;
                  w = emit w ''generating-audio'' 100
              in (Inr audioPath, w)))"

fun imageLoop ::
  "env \<Rightarrow> nat \<Rightarrow> nat list \<Rightarrow> path list \<Rightarrow> world \<Rightarrow> (string + path list) \<times> world" where
  \<comment> \<open>the loop of \<open>generateAllImages\<close> over the indices still to do; \<open>imagePaths\<close> is
      local to that function\<close>
  "imageLoop env n [] imagePaths w = (Inr imagePaths, w)"
| "imageLoop env n (i # rest) imagePaths w =
     (let w = emit w ''generating-images'' (fmul (fdiv (of_nat i) (of_nat n)) 100)
      in case imageResult env i of
           ImageNotOk statusText \<Rightarrow>
             (Inl (''Image generation failed for prompt '' @ showNat (i + 1) @ '': '' @ statusText), w)
         | ImageNoUrl \<Rightarrow> (Inl (''No image URL returned for prompt '' @ showNat (i + 1)), w)
         | ImageDownloadNotOk statusText \<Rightarrow>
             (let w = emit w ''generating-images''
                        (fmul (fdiv (fadd (of_nat i) (rd (5 / 10))) (of_nat n)) 100)
              in (Inl (''Failed to download image: '' @ statusText), w))
         | ImageOk now \<Rightarrow>
             (let w = emit w ''generating-images''
                        (fmul (fdiv (fadd (of_nat i) (rd (5 / 10))) (of_nat n)) 100);
                  imagePath = TmpImage (i + 1) now;
                  w = writeFile w imagePath
              in imageLoop env n rest (imagePaths @ [imagePath]) w))"

definition generateAllImages :: "env \<Rightarrow> nat \<Rightarrow> world \<Rightarrow> (string + path list) \<times> world" where
  \<comment> \<open>\<open>n\<close> is \<open>imagePrompts.length\<close>\<close>
  "generateAllImages env n w =
     (case imageLoop env n [0..<n] [] w of
        (Inl e, w) \<Rightarrow> (Inl e, w)
      | (Inr imagePaths, w) \<Rightarrow> (Inr imagePaths, emit w ''generating-images'' 100))"

definition probeError :: "probeOutcome \<Rightarrow> string" where
  \<comment> \<open>the message \<open>getMediaDuration\<close> rejects with\<close>
  "probeError r =
     (case r of
        ProbeExit code \<Rightarrow> ''FFprobe failed with code '' @ showCode code
      | ProbeSpawnError m \<Rightarrow> ''FFprobe spawn error: '' @ m
      | ProbeOk d \<Rightarrow> [])"

definition typeErrorMessage :: string where
  \<comment> \<open>the message of the \<open>TypeError\<close> for \<open>undefined.toString()\<close>\<close>
  "typeErrorMessage =
     ''Cannot read properties of undefined (reading '' @ [CHR 0x27] @ ''toString''
       @ [CHR 0x27] @ '')''"

definition buildArgs :: "path list \<Rightarrow> path \<Rightarrow> num list \<Rightarrow> path \<Rightarrow> string + ffmpegArgs" where
  \<comment> \<open>the argument list; \<open>adjustedTimings[i].toString()\<close> throws a \<open>TypeError\<close> when
      there are fewer timings than images\<close>
  "buildArgs imagePaths audioPath adjusted outputPath =
     (if length adjusted < length imagePaths
      then Inl typeErrorMessage
      else Inr \<lparr>imageInputs = map (\<lambda>i. (adjusted ! i, imagePaths ! i)) [0..<length imagePaths],
                audioInput = audioPath,
                filter_complex = buildFilterComplex (length imagePaths) adjusted,
                outputFile = outputPath\<rparr>)"

definition encodeProgress :: "num \<Rightarrow> num \<Rightarrow> num" where
  \<comment> \<open>\<open>Math.min(95, 30 + (currentTime / targetDuration) * 65)\<close>\<close>
  "encodeProgress target currentTime = min 95 (fadd 30 (fmul (fdiv currentTime target) 65))"

definition encodeEvent :: "num \<Rightarrow> world \<Rightarrow> num \<Rightarrow> world" where
  \<comment> \<open>a progress line of the encoder\<close>
  "encodeEvent target w currentTime = emit w ''creating-video'' (encodeProgress target currentTime)"

definition runEncoder ::
  "env \<Rightarrow> num \<Rightarrow> path \<Rightarrow> ffmpegArgs option \<Rightarrow> world \<Rightarrow> (string + path \<times> num) \<times> world" where
  \<comment> \<open>from the spawn of the encoder on; the arguments are \<open>None\<close> when they hold
      timings that are not finite\<close>
  "runEncoder env audioDuration outputPath args w =
     (let w = emit w ''creating-video'' 30;
          w = w\<lparr>spawned := spawned w @ [args]\<rparr>;
          w = foldl (encodeEvent (encodeTargetDuration audioDuration)) w (encodeTimes env);
          w = (if outputWritten env then writeFile w outputPath else w)
      in case encoderResult env of
           EncoderTimeout stderr \<Rightarrow>
             (let w = unlinkIfExists w outputPath
              in (Inl (''FFmpeg timeout after 120 seconds. Stderr: '' @ stderr), w))
         | EncoderClose code stderr \<Rightarrow>
             (if code = Some 0
              then (let w = emit w ''creating-video'' 95
                    in case videoProbeResult env of
                         ProbeOk actualDuration \<Rightarrow>
                           (Inr (outputPath, actualDuration), emit w ''creating-video'' 100)
                       | ProbeExit c \<Rightarrow>
                           (Inl (''Failed to get video duration: '' @ probeError (ProbeExit c)), w)
                       | ProbeSpawnError m \<Rightarrow>
                           (Inl (''Failed to get video duration: ''
                                  @ probeError (ProbeSpawnError m)), w))
              else (let w = unlinkIfExists w outputPath
                    in (Inl (''FFmpeg failed with code '' @ showCode code @ '': '' @ stderr), w)))
         | EncoderSpawnError m \<Rightarrow>
             (let w = unlinkIfExists w outputPath
              in (Inl (''FFmpeg spawn error: '' @ m), w)))"

definition createVideoWithFFmpeg ::
  "env \<Rightarrow> path list \<Rightarrow> path \<Rightarrow> num list \<Rightarrow> world \<Rightarrow> (string + path \<times> num) \<times> world" where
  "createVideoWithFFmpeg env imagePaths audioPath timings w =
     (let w = emit w ''creating-video'' 0;
          outputPath = TmpVideo (videoStamp env);
          w = emit w ''creating-video'' 10
      in case audioProbeResult env of
           ProbeExit code \<Rightarrow> (Inl (probeError (ProbeExit code)), w)
         | ProbeSpawnError m \<Rightarrow> (Inl (probeError (ProbeSpawnError m)), w)
         | ProbeOk audioDuration \<Rightarrow>
             (let adjustedOpt = adjustedTimings (length imagePaths) audioDuration timings;
                  w = emit w ''creating-video'' 20
              in case adjustedOpt of
                   Some adjusted \<Rightarrow>
                     (case buildArgs imagePaths audioPath adjusted outputPath of
                        Inl e \<Rightarrow> (Inl e, w)
                      | Inr args \<Rightarrow> runEncoder env audioDuration outputPath (Some args) w)
                 | None \<Rightarrow>
                     (if length timings < length imagePaths then (Inl typeErrorMessage, w)
                      else runEncoder env audioDuration outputPath None w)))"

definition generateVideoTry ::
  "env \<Rightarrow> imagePrompt list \<Rightarrow> world
     \<Rightarrow> (string + videoGenerationResult) \<times> path option \<times> path list \<times> world" where
  \<comment> \<open>the \<open>try\<close> block, with the two variables the \<open>finally\<close> block reads:
      \<open>audioPath\<close> and \<open>imagePaths\<close> are assigned when their call returns\<close>
  "generateVideoTry env imagePrompts w =
     (let w = emit w ''initializing'' 0;
          voiceoverSegments = map (\<lambda>prompt. trim (voiceover prompt)) imagePrompts;
          w = emit w ''calculating-timings'' 5;
          timings = calculateOptimalTimings voiceoverSegments
      in case generateAudioFile env w of
           (Inl e, w) \<Rightarrow> (Inl e, None, [], w)
         | (Inr audioPath, w) \<Rightarrow>
             (case generateAllImages env (length imagePrompts) w of
                (Inl e, w) \<Rightarrow> (Inl e, Some audioPath, [], w)
              | (Inr imagePaths, w) \<Rightarrow>
                  (case createVideoWithFFmpeg env imagePaths audioPath timings w of
                     (Inl e, w) \<Rightarrow> (Inl e, Some audioPath, imagePaths, w)
                   | (Inr (video, actualDuration), w) \<Rightarrow>
                       (let w = emit w ''completed'' 100
                        in (Inr \<lparr>videoPath = video, duration = actualDuration,
                                  optimizedTimings = timings\<rparr>,
                            Some audioPath, imagePaths, w)))))"

definition generateVideo ::
  "env \<Rightarrow> imagePrompt list \<Rightarrow> world \<Rightarrow> (string + videoGenerationResult) \<times> world" where
  "generateVideo env imagePrompts w =
     (case generateVideoTry env imagePrompts w of
        (result, audioPath, imagePaths, w) \<Rightarrow>
          (let w = (case result of Inl e \<Rightarrow> emit w ''error'' 0 | Inr r \<Rightarrow> w);
               w = emit w ''finalizing'' 95;
               w = foldl unlinkIfExists w imagePaths;
               w = (case audioPath of None \<Rightarrow> w | Some a \<Rightarrow> unlinkIfExists w a)
           in (result, w)))"

definition errorCode :: "string \<Rightarrow> string" where
  \<comment> \<open>the handler's classification of a caught error by its message\<close>
  "errorCode message =
     (if includesStr message ''TTS generation failed'' then ''TTS_SERVICE_ERROR''
      else if includesStr message ''Image generation failed'' then ''IMAGE_SERVICE_ERROR''
      else if includesStr message ''FFmpeg failed'' then ''VIDEO_PROCESSING_ERROR''
      else ''INTERNAL_ERROR'')"

definition errorMessage :: "string \<Rightarrow> string" where
  "errorMessage message =
     (if includesStr message ''TTS generation failed'' then ''Failed to generate audio for video''
      else if includesStr message ''Image generation failed'' then ''Failed to generate images for video''
      else if includesStr message ''FFmpeg failed'' then ''Failed to process video''
      else ''Video generation failed'')"

definition errorDetails :: "string \<Rightarrow> string" where
  "errorDetails message =
     (if includesStr message ''TTS generation failed''
      then ''Please check your text-to-speech service configuration''
      else if includesStr message ''Image generation failed''
      then ''Please check your image generation service configuration''
      else if includesStr message ''FFmpeg failed'' then ''Video encoding failed. Please try again''
      else ''An unexpected error occurred'')"

type_synonym broadcastCall = "string \<times> num \<times> completionData option"

definition errorCall :: "string \<Rightarrow> broadcastCall" where
  "errorCall message =
     (''error'', 0, Some (ErrorData (errorCode message) (errorMessage message) (errorDetails message)))"

definition handleVideoRequest ::
  "env \<Rightarrow> imagePrompt list \<Rightarrow> path set \<Rightarrow> broadcastCall list \<times> path set" where
  \<comment> \<open>the asynchronous part of the \<open>/api/generate-video\<close> handler, after validation: the
      calls of \<open>broadcastProgress\<close> for the session, in order, and the files left. The
      calls made through \<open>onProgress\<close> carry no data. \<open>renameSync\<close> throws when its
      source is missing.\<close>
  "handleVideoRequest env imagePrompts fs =
     (case generateVideo env imagePrompts \<lparr>files = fs, events = [], spawned = []\<rparr> of
        (result, w) \<Rightarrow>
          (let calls = map (\<lambda>(step, progress). (step, progress, None)) (events w)
           in case result of
                Inl e \<Rightarrow> (calls @ [errorCall e], files w)
              | Inr r \<Rightarrow>
                  (let videoFileName = videoId env @ ''.mp4'';
                       finalVideoPath = PublicVideo videoFileName;
                       publicVideoUrl = requestProtocol env @ ''://'' @ requestHost env
                                          @ ''/video/'' @ videoFileName
                   in if videoPath r \<in> files w
                      then (calls @ [(''completed'', 100,
                                      Some (VideoData publicVideoUrl (duration r)
                                              (optimizedTimings r)))],
                            insert finalVideoPath (files w - {videoPath r}))
                      else (calls @ [errorCall ''ENOENT: no such file or directory, rename''],
                            files w))))"

definition publishAll :: "server \<Rightarrow> string \<Rightarrow> broadcastCall list \<Rightarrow> server" where
  \<comment> \<open>the calls of one run reaching the broadcaster with no other handler in between;
      the display text and the timestamp are left empty\<close>
  "publishAll st sessionId calls =
     foldl (\<lambda>st (step, progress, d). broadcastProgress st sessionId step progress [] [] d) st calls"

section \<open>Concrete runs\<close>

text \<open>
  Two lists of voiceover texts, and environments and requests for the runs evaluated below: a run in which everything
  succeeds, one whose second image request is refused, one whose encoder ends with code 0
  and whose output cannot be probed, and one whose encoder is stopped by the timeout
  after it has written part of its output.
\<close>

definition threeSegments :: "string list" where
  \<comment> \<open>7, 4 and 4 words\<close>
  "threeSegments = [''a a a a a a a'', ''a a a a'', ''a a a a'']"

definition fourSegments :: "string list" where
  \<comment> \<open>14, 4, 3 and 3 words\<close>
  "fourSegments = [''a a a a a a a a a a a a a a'', ''a a a a'', ''a a a'', ''a a a'']"

definition successEnv :: env where
  "successEnv =
     \<lparr>ttsResult = TtsOk 1, imageResult = (\<lambda>i. ImageOk (2 + i)), audioProbeResult = ProbeOk 30,
      videoStamp = 9, encodeTimes = [15], outputWritten = True,
      encoderResult = EncoderClose (Some 0) [], videoProbeResult = ProbeOk 30,
      videoId = ''id'', requestProtocol = ''https'', requestHost = ''example.org''\<rparr>"

definition imageFailEnv :: env where
  "imageFailEnv =
     successEnv\<lparr>imageResult := (\<lambda>i. if i = 0 then ImageOk 2 else ImageNotOk ''Too Many Requests'')\<rparr>"

definition probeFailEnv :: env where
  "probeFailEnv = successEnv\<lparr>videoProbeResult := ProbeExit (Some 1)\<rparr>"

definition timeoutEnv :: env where
  "timeoutEnv = successEnv\<lparr>encoderResult := EncoderTimeout []\<rparr>"

definition onePrompt :: "imagePrompt list" where
  "onePrompt = [\<lparr>visual = ''a lake'', voiceover = ''hello''\<rparr>]"

definition twoPrompts :: "imagePrompt list" where
  "twoPrompts = [\<lparr>visual = ''a lake'', voiceover = ''hello''\<rparr>,
                 \<lparr>visual = ''a hill'', voiceover = ''world''\<rparr>]"

definition subscribedServer :: server where
  \<comment> \<open>the socket 1 is connected and has subscribed to the session \<open>s\<close>\<close>
  "subscribedServer = onMessage (onConnection initialServer 1) 1 (subscribeTo ''s'')"

section \<open>Facts about the rounding to doubles\<close>

lemma pow2_powi: "pow2 e = 2 powi e"
  unfolding pow2_def power_int_def by (simp add: field_simps)

lemma pow2_pos: "0 < pow2 e"
  unfolding pow2_powi by simp

lemma pow2_add: "pow2 (a + b) = pow2 a * pow2 b"
  unfolding pow2_powi by (simp add: power_int_add)

lemma pow2_1: "pow2 1 = 2" and pow2_0: "pow2 0 = 1" and pow2_m1: "pow2 (- 1) = 1 / 2"
  unfolding pow2_def by simp_all

lemma pow2_mono: "a \<le> b \<Longrightarrow> pow2 a \<le> pow2 b"
  unfolding pow2_powi by (rule power_int_increasing) simp_all

lemma pow2_nat: "pow2 (int n) = 2 ^ n"
  unfolding pow2_def by simp

lemma ilog2_bounds: "0 < x \<Longrightarrow> pow2 (ilog2 x) \<le> x \<and> x < pow2 (ilog2 x + 1)"
proof (induction x rule: ilog2.induct)
  case (1 x)
  show ?case
  proof (cases "2 \<le> x")
    case True
    then have ih: "pow2 (ilog2 (x / 2)) \<le> x / 2 \<and> x / 2 < pow2 (ilog2 (x / 2) + 1)"
      using 1 by simp
    have e: "ilog2 x = ilog2 (x / 2) + 1" using True by (subst ilog2.simps) simp
    show ?thesis using ih unfolding e pow2_add pow2_1 by simp
  next
    case False
    show ?thesis
    proof (cases "x < 1")
      case True
      then have ih: "pow2 (ilog2 (2 * x)) \<le> 2 * x \<and> 2 * x < pow2 (ilog2 (2 * x) + 1)"
        using 1 False by simp
      have e: "ilog2 x = ilog2 (2 * x) + (- 1)" using True False 1(3) by (subst ilog2.simps) simp
      have "pow2 (ilog2 (2 * x) + (- 1)) = pow2 (ilog2 (2 * x)) / 2"
        unfolding pow2_add pow2_m1 by simp
      moreover have "pow2 (ilog2 (2 * x) + (- 1) + 1) = pow2 (ilog2 (2 * x) + 1) / 2"
        unfolding pow2_add pow2_m1 pow2_1 by simp
      ultimately show ?thesis using ih unfolding e by simp
    next
      case nlt: False
      have e: "ilog2 x = 0" using False nlt 1(3) by (subst ilog2.simps) simp
      show ?thesis using False nlt unfolding e by (simp add: pow2_0 pow2_1)
    qed
  qed
qed

lemma ilog2_ge: "0 < x \<Longrightarrow> pow2 k \<le> x \<Longrightarrow> k \<le> ilog2 x"
proof (rule ccontr)
  assume x: "0 < x" and k: "pow2 k \<le> x" and "\<not> k \<le> ilog2 x"
  then have "ilog2 x + 1 \<le> k" by simp
  then have "pow2 (ilog2 x + 1) \<le> pow2 k" by (rule pow2_mono)
  with ilog2_bounds [OF x] k show False by simp
qed

lemma ilog2_le: "0 < x \<Longrightarrow> x < pow2 (k + 1) \<Longrightarrow> ilog2 x \<le> k"
proof (rule ccontr)
  assume x: "0 < x" and k: "x < pow2 (k + 1)" and "\<not> ilog2 x \<le> k"
  then have "k + 1 \<le> ilog2 x" by simp
  then have "pow2 (k + 1) \<le> pow2 (ilog2 x)" by (rule pow2_mono)
  with ilog2_bounds [OF x] k show False by simp
qed

lemma ilog2_mono: "0 < x \<Longrightarrow> x \<le> y \<Longrightarrow> ilog2 x \<le> ilog2 y"
  using ilog2_bounds [of x] by (intro ilog2_ge) auto

lemma roundEven_bounds: "of_int (roundEven y) \<le> y + 1 / 2 \<and> y - 1 / 2 \<le> of_int (roundEven y)"
proof -
  define f where "f = \<lfloor>y\<rfloor>"
  have a: "of_int f \<le> y" and b: "y < of_int f + 1" unfolding f_def by linarith+
  have r: "roundEven y =
      (if y - of_int f < 1 / 2 then f else if 1 / 2 < y - of_int f then f + 1
       else if even f then f else f + 1)"
    unfolding roundEven_def Let_def f_def by simp
  show ?thesis
  proof (cases "y - of_int f < 1 / 2")
    case True
    then show ?thesis using a b unfolding r by (simp only: if_True) linarith
  next
    case False
    then have "roundEven y = f \<and> y - of_int f = 1 / 2 \<or> roundEven y = f + 1"
      unfolding r by auto
    then show ?thesis
    proof
      assume h: "roundEven y = f \<and> y - of_int f = 1 / 2"
      then have "of_int (roundEven y) = (of_int f :: rat)" by simp
      with h show ?thesis by linarith
    next
      assume h: "roundEven y = f + 1"
      then have "of_int (roundEven y) = (of_int f :: rat) + 1" by simp
      with a b False show ?thesis by linarith
    qed
  qed
qed

lemma roundEven_int: "roundEven (of_int k) = k"
  unfolding roundEven_def Let_def by simp

lemma roundEven_mono:
  assumes "x \<le> y"
  shows "roundEven x \<le> roundEven y"
proof (cases "\<lfloor>x\<rfloor> = \<lfloor>y\<rfloor>")
  case True
  then show ?thesis using assms unfolding roundEven_def Let_def by auto
next
  case False
  then have "\<lfloor>x\<rfloor> + 1 \<le> \<lfloor>y\<rfloor>" using floor_mono [OF assms] by simp
  moreover have "roundEven x \<le> \<lfloor>x\<rfloor> + 1" unfolding roundEven_def Let_def by auto
  moreover have "\<lfloor>y\<rfloor> \<le> roundEven y" unfolding roundEven_def Let_def by auto
  ultimately show ?thesis by simp
qed

lemma rd_pos_eq: "0 < x \<Longrightarrow> rd x = of_int (roundEven (x / pow2 (expo x))) * pow2 (expo x)"
  unfolding rd_def by simp

lemma rd_abs_err:
  assumes "0 < x"
  shows "\<bar>rd x - x\<bar> \<le> pow2 (expo x) / 2"
proof -
  define p where "p = pow2 (expo x)"
  have p: "0 < p" unfolding p_def by (rule pow2_pos)
  define k where "k = (of_int (roundEven (x / p)) :: rat)"
  have b: "k \<le> x / p + 1 / 2" "x / p - 1 / 2 \<le> k"
    unfolding k_def using roundEven_bounds [of "x / p"] by simp_all
  have "\<bar>k - x / p\<bar> \<le> 1 / 2" using b by linarith
  then have "\<bar>k - x / p\<bar> * p \<le> 1 / 2 * p" using p by (intro mult_right_mono) simp_all
  moreover have "\<bar>k - x / p\<bar> * p = \<bar>k * p - x\<bar>"
  proof -
    have "\<bar>k - x / p\<bar> * p = \<bar>(k - x / p) * p\<bar>" using p by (simp add: abs_mult)
    also have "(k - x / p) * p = k * p - x" using p by (simp add: field_simps)
    finally show ?thesis .
  qed
  ultimately show ?thesis unfolding rd_pos_eq [OF assms] p_def [symmetric] k_def [symmetric] by simp
qed

lemma expo_pos: "0 < x \<Longrightarrow> expo x = max (ilog2 x) (- 1022) - 52"
  unfolding expo_def by simp

lemma pow2_expo_le:
  assumes "0 < x"
  shows "pow2 (expo x) \<le> max (x / 2 ^ 52) (pow2 (- 1074))"
proof (cases "- 1022 \<le> ilog2 x")
  case True
  then have "expo x = ilog2 x + (- 52)" using assms by (simp add: expo_pos)
  then have "pow2 (expo x) = pow2 (ilog2 x) * pow2 (- 52)" by (simp only: pow2_add)
  also have "pow2 (- 52) = 1 / 2 ^ 52" unfolding pow2_def by simp
  finally have "pow2 (expo x) = pow2 (ilog2 x) / 2 ^ 52" by simp
  also have "\<dots> \<le> x / 2 ^ 52" using ilog2_bounds [OF assms] by (simp add: divide_right_mono)
  finally show ?thesis by simp
next
  case False
  then have "expo x = - 1074" using assms by (simp add: expo_pos)
  then show ?thesis by simp
qed

lemma rd_zero: "rd 0 = 0"
  by (simp add: rd_def)

lemma rd_nonneg: "0 \<le> x \<Longrightarrow> 0 \<le> rd x"
proof (cases "x = 0")
  case True
  then show ?thesis by (simp add: rd_zero)
next
  case False
  assume "0 \<le> x"
  with False have x: "0 < x" by simp
  have "0 \<le> x / pow2 (expo x)" using x pow2_pos [of "expo x"] by simp
  then have "roundEven 0 \<le> roundEven (x / pow2 (expo x))" by (rule roundEven_mono)
  then have "0 \<le> roundEven (x / pow2 (expo x))" using roundEven_int [of 0] by simp
  then show ?thesis unfolding rd_pos_eq [OF x] using pow2_pos [of "expo x"] by simp
qed

lemma rd_mono_pos:
  assumes x: "0 < x" and xy: "x \<le> y"
  shows "rd x \<le> rd y"
proof -
  have y: "0 < y" using x xy by simp
  have exy: "expo x \<le> expo y" using ilog2_mono [OF x xy] x y by (simp add: expo_pos)
  show ?thesis
  proof (cases "expo x = expo y")
    case True
    have "x / pow2 (expo y) \<le> y / pow2 (expo y)"
      using xy pow2_pos [of "expo y"] by (simp add: divide_right_mono)
    then have "roundEven (x / pow2 (expo y)) \<le> roundEven (y / pow2 (expo y))"
      by (rule roundEven_mono)
    then show ?thesis
      unfolding rd_pos_eq [OF x] rd_pos_eq [OF y] True
      using pow2_pos [of "expo y"] by simp
  next
    case False
    with exy have lt: "expo x + 1 \<le> expo y" by simp
    have ix: "ilog2 x \<le> expo x + 52" using x by (simp add: expo_pos)
    have "x < pow2 (ilog2 x + 1)" using ilog2_bounds [OF x] by simp
    also have "\<dots> \<le> pow2 (expo x + 53)" using ix by (intro pow2_mono) simp
    finally have xb: "x < pow2 (expo x + 53)" .
    have p53: "pow2 (expo x + 53) = 2 ^ 53 * pow2 (expo x)"
      using pow2_add [of 53 "expo x"] pow2_nat [of 53] by (simp add: add.commute)
    have "x / pow2 (expo x) \<le> of_int (2 ^ 53)"
      using xb pow2_pos [of "expo x"] unfolding p53 by (simp add: field_simps)
    then have "roundEven (x / pow2 (expo x)) \<le> roundEven (of_int (2 ^ 53))"
      by (rule roundEven_mono)
    then have "roundEven (x / pow2 (expo x)) \<le> 2 ^ 53" by (simp only: roundEven_int)
    then have "(of_int (roundEven (x / pow2 (expo x))) :: rat) \<le> of_int (2 ^ 53)"
      by (simp only: of_int_le_iff)
    then have "rd x \<le> 2 ^ 53 * pow2 (expo x)"
      unfolding rd_pos_eq [OF x] using pow2_pos [of "expo x"] by simp
    then have rx: "rd x \<le> pow2 (expo x + 53)" unfolding p53 .
    have ey: "expo y = ilog2 y - 52"
    proof -
      have "- 1074 \<le> expo x" using x by (simp add: expo_pos)
      with lt have "- 1074 < expo y" by simp
      then show ?thesis using y by (simp add: expo_pos max_def split: if_splits)
    qed
    have p52: "pow2 (expo y + 52) = 2 ^ 52 * pow2 (expo y)"
      using pow2_add [of 52 "expo y"] pow2_nat [of 52] by (simp add: add.commute)
    have "pow2 (expo y + 52) \<le> y" using ilog2_bounds [OF y] ey by simp
    then have "of_int (2 ^ 52) \<le> y / pow2 (expo y)"
      using pow2_pos [of "expo y"] unfolding p52 by (simp add: field_simps)
    then have "roundEven (of_int (2 ^ 52)) \<le> roundEven (y / pow2 (expo y))"
      by (rule roundEven_mono)
    then have "2 ^ 52 \<le> roundEven (y / pow2 (expo y))" by (simp only: roundEven_int)
    then have "(of_int (2 ^ 52) :: rat) \<le> of_int (roundEven (y / pow2 (expo y)))"
      by (simp only: of_int_le_iff)
    then have "2 ^ 52 * pow2 (expo y) \<le> rd y"
      unfolding rd_pos_eq [OF y] using pow2_pos [of "expo y"] by simp
    then have ry: "pow2 (expo y + 52) \<le> rd y" unfolding p52 .
    have "pow2 (expo x + 53) \<le> pow2 (expo y + 52)" using lt by (intro pow2_mono) simp
    with rx ry show ?thesis by simp
  qed
qed

lemma rd_mono: "0 \<le> x \<Longrightarrow> x \<le> y \<Longrightarrow> rd x \<le> rd y"
proof (cases "x = 0")
  case True
  assume "0 \<le> x" and "x \<le> y"
  then have "0 \<le> rd y" using True by (intro rd_nonneg) simp
  then show ?thesis using True by (simp add: rd_zero)
next
  case False
  assume "0 \<le> x" and "x \<le> y"
  then show ?thesis using False by (intro rd_mono_pos) simp_all
qed

lemma rd_err_small:
  assumes "0 \<le> x" and "x \<le> 10000"
  shows "\<bar>rd x - x\<bar> \<le> 1 / 100000000000"
proof (cases "x = 0")
  case True
  then show ?thesis by (simp add: rd_zero)
next
  case False
  with assms have x: "0 < x" by simp
  have "pow2 (expo x) \<le> max (x / 2 ^ 52) (pow2 (- 1074))" by (rule pow2_expo_le [OF x])
  also have "\<dots> \<le> 10000 / 2 ^ 52"
  proof -
    have "x / 2 ^ 52 \<le> 10000 / 2 ^ 52" using assms(2) by (simp add: divide_right_mono)
    moreover have "pow2 (- 1074) \<le> pow2 (- 52)" by (rule pow2_mono) simp
    moreover have "pow2 (- 52) = 1 / 2 ^ 52" unfolding pow2_def by simp
    ultimately show ?thesis by simp
  qed
  finally have "pow2 (expo x) / 2 \<le> 10000 / 2 ^ 52 / 2" by simp
  also have "\<dots> \<le> (1 / 100000000000 :: rat)" by simp
  finally show ?thesis using rd_abs_err [OF x] by simp
qed

lemma rd_of_nat:
  assumes "m < 2 ^ 53"
  shows "rd (of_nat m) = of_nat m"
proof (cases "m = 0")
  case True
  then show ?thesis by (simp add: rd_zero)
next
  case False
  let ?x = "of_nat m :: rat"
  have x: "0 < ?x" using False by simp
  have "pow2 0 \<le> ?x" using False by (simp add: pow2_0)
  then have lo: "0 \<le> ilog2 ?x" using x by (intro ilog2_ge)
  have "?x < of_nat (2 ^ 53)" using assms by (simp only: of_nat_less_iff)
  then have "?x < pow2 (52 + 1)" using pow2_nat [of 53] by simp
  then have hi: "ilog2 ?x \<le> 52" using x by (intro ilog2_le)
  define j where "j = nat (52 - ilog2 ?x)"
  have e: "expo ?x = - int j" using lo hi unfolding j_def by (simp add: expo_pos [OF x])
  have p: "pow2 (expo ?x) = 1 / 2 ^ j" unfolding e pow2_def by simp
  have "?x / pow2 (expo ?x) = of_int (int m * 2 ^ j)" unfolding p by simp
  then have "roundEven (?x / pow2 (expo ?x)) = int m * 2 ^ j" by (simp only: roundEven_int)
  then show ?thesis unfolding rd_pos_eq [OF x] p by simp
qed

subsection \<open>Rules that evaluate the rounding of a literal\<close>

lemma floor_rat_numeral: "\<lfloor>(numeral a / numeral b :: rat)\<rfloor> = numeral a div numeral b"
  using floor_divide_of_int_eq [of "numeral a" "numeral b", where ?'a = rat] by simp

lemma ilog2_ge2: "2 \<le> x \<Longrightarrow> ilog2 x = ilog2 (x / 2) + 1"
  by (subst ilog2.simps) simp

lemma ilog2_lt1: "0 < x \<Longrightarrow> x < 1 \<Longrightarrow> ilog2 x = ilog2 (2 * x) - 1"
  by (subst ilog2.simps) simp

lemma ilog2_unit: "1 \<le> x \<Longrightarrow> x < 2 \<Longrightarrow> ilog2 x = 0"
  by (subst ilog2.simps) simp

lemma rd_numeral: "rd (numeral a) =
    of_int (roundEven (numeral a / pow2 (expo (numeral a)))) * pow2 (expo (numeral a))"
  unfolding rd_def by simp

lemma rd_fraction: "rd (numeral a / numeral b) =
    of_int (roundEven (numeral a / numeral b / pow2 (expo (numeral a / numeral b))))
      * pow2 (expo (numeral a / numeral b))"
  unfolding rd_def by simp

lemma rd_unit_fraction: "rd (1 / numeral b) =
    of_int (roundEven (1 / numeral b / pow2 (expo (1 / numeral b)))) * pow2 (expo (1 / numeral b))"
  unfolding rd_def by simp

lemma rd_1: "rd 1 = 1"
  unfolding rd_def expo_def pow2_def roundEven_def by (simp add: ilog2_unit)

lemma rd_minus: "rd (- x) = - rd x"
  unfolding rd_def expo_def by (simp add: sgn_minus)

lemma expo_numeral: "expo (numeral a) = max (ilog2 (numeral a)) (- 1022) - 52"
  and expo_fraction: "expo (numeral a / numeral b) = max (ilog2 (numeral a / numeral b)) (- 1022) - 52"
  and expo_unit_fraction: "expo (1 / numeral b) = max (ilog2 (1 / numeral b)) (- 1022) - 52"
  unfolding expo_def by simp_all

lemma roundEven_numeral: "roundEven (numeral a) = numeral a"
  using roundEven_def [of "numeral a"] by (simp add: Let_def)

lemma roundEven_fraction: "roundEven (numeral a / numeral b) =
    (let f = numeral a div numeral b; d = (numeral a / numeral b :: rat) - of_int f
     in if d < 1 / 2 then f else if 1 / 2 < d then f + 1 else if even f then f else f + 1)"
  unfolding roundEven_def floor_rat_numeral ..

lemma roundEven_unit_fraction: "roundEven (1 / numeral b) =
    (let f = 1 div numeral b; d = (1 / numeral b :: rat) - of_int f
     in if d < 1 / 2 then f else if 1 / 2 < d then f + 1 else if even f then f else f + 1)"
  using roundEven_fraction [of Num.One b] by simp

lemmas float_eval = rd_numeral rd_fraction rd_unit_fraction rd_zero rd_1 rd_minus
  expo_numeral expo_fraction expo_unit_fraction pow2_def
  roundEven_numeral roundEven_fraction roundEven_unit_fraction
  fadd_def fsub_def fmul_def fdiv_def ilog2_ge2 ilog2_lt1 ilog2_unit Let_def floor_rat_numeral

lemma rd_values:
  "rd 12 = 12" "rd 15 = 15" "rd 25 = 25" "rd 40 = 40" "rd 120 = 120" "rd 2 = 2"
  "rd (5 / 2) = 5 / 2" "rd (1 / 2) = 1 / 2"
  by (simp_all add: float_eval)

lemma boost_factors: "1 \<le> rd (12 / 10)" "1 \<le> rd (11 / 10)"
  by (simp_all add: float_eval)

lemma least_target: "rd (1 / 15) \<le> 1" "rd (25 + rd (15 * rd (1 / 15))) = 26"
  by (simp_all add: float_eval)

section \<open>The timing allocator: what the loops compute\<close>

lemma foldl_push: "foldl (\<lambda>ts i. ts @ [f i]) acc js = acc @ map f js"
  by (induction js arbitrary: acc) simp_all

lemma foldl_update_take:
  "k \<le> length ts \<Longrightarrow>
   foldl (\<lambda>ts i. ts[i := f (ts ! i)]) ts [0..<k] = map f (take k ts) @ drop k ts"
proof (induction k)
  case 0
  then show ?case by simp
next
  case (Suc k)
  then have k: "k < length ts" by simp
  have "(map f (take k ts) @ drop k ts) [k := f ((map f (take k ts) @ drop k ts) ! k)]
        = map f (take (Suc k) ts) @ drop (Suc k) ts"
    using k by (simp add: list_update_append nth_append take_Suc_conv_app_nth
        Cons_nth_drop_Suc [symmetric] min_def)
  with Suc show ?case by simp
qed

lemma weightLoop_eq:
  "weightLoop segs (ws, tw) =
     (ws @ map segmentWeight segs, foldl fadd tw (map segmentWeight segs))"
  by (induction segs arbitrary: ws tw) (simp_all add: Let_def)

lemma total_foldl: "total xs = foldl fadd 0 xs"
  unfolding total_def ..

lemma rescaleLoop_map: "rescaleLoop c ts = map (\<lambda>t. round1 (fmul t c)) ts"
  unfolding rescaleLoop_def
  using foldl_update_take [of "length ts" ts "\<lambda>t. round1 (fmul t c)"] by simp

lemma initialTimings_map:
  "initialTimings segs =
     map (\<lambda>w. round1 (max (rd (25 / 10))
           (min 12 (fmul (fdiv w (total (map segmentWeight segs))) (targetDuration segs)))))
       (map segmentWeight segs)"
proof -
  let ?g = "\<lambda>w. round1 (max (rd (25 / 10))
           (min 12 (fmul (fdiv w (total (map segmentWeight segs))) (targetDuration segs))))"
  let ?ws = "map segmentWeight segs"
  have "initialTimings segs = foldl (\<lambda>ts i. ts @ [?g (?ws ! i)]) [] [0..<length ?ws]"
    unfolding initialTimings_def by (simp add: weightLoop_eq Let_def total_foldl)
  also have "\<dots> = map (\<lambda>i. ?g (?ws ! i)) [0..<length ?ws]"
    by (simp add: foldl_push)
  also have "\<dots> = map ?g ?ws"
    by (simp add: map_equality_iff)
  finally show ?thesis .
qed

lemma length_initialTimings: "length (initialTimings segs) = length segs"
  by (simp add: initialTimings_map)

lemma math_round_bounds:
  "of_int (math_round x) \<le> x + 1 / 2 \<and> x - 1 / 2 < of_int (math_round x)"
  unfolding math_round_def by linarith

lemma math_round_mono: "x \<le> y \<Longrightarrow> math_round x \<le> math_round y"
  unfolding math_round_def by (simp add: floor_mono)

lemma math_round_int: "math_round (of_int k) = k"
proof -
  have "\<lfloor>(of_int k :: rat) + 1 / 2\<rfloor> = k" by (rule floor_unique) simp_all
  then show ?thesis unfolding math_round_def .
qed

lemma round1_clamped:
  assumes "5 / 2 \<le> x" and "x \<le> 12"
  shows "5 / 2 \<le> round1 x \<and> round1 x \<le> 12"
proof -
  have "rd 25 \<le> rd (x * 10)" using assms(1) by (intro rd_mono) simp_all
  moreover have "rd (x * 10) \<le> rd 120" using assms by (intro rd_mono) simp_all
  ultimately have y: "of_int 25 \<le> fmul x 10" "fmul x 10 \<le> of_int 120"
    unfolding fmul_def by (simp_all add: rd_values)
  have "math_round (of_int 25) \<le> math_round (fmul x 10)" using y(1) by (rule math_round_mono)
  moreover have "math_round (fmul x 10) \<le> math_round (of_int 120)"
    using y(2) by (rule math_round_mono)
  ultimately have k: "25 \<le> math_round (fmul x 10)" "math_round (fmul x 10) \<le> 120"
    by (simp_all only: math_round_int)
  define k where "k = math_round (fmul x 10)"
  have kr: "(25 :: rat) \<le> of_int k" "(of_int k :: rat) \<le> 120"
    using k unfolding k_def [symmetric] by simp_all
  have "rd (25 / 10) \<le> rd (of_int k / 10)" using kr by (intro rd_mono) simp_all
  moreover have "rd (of_int k / 10) \<le> rd 12" using kr by (intro rd_mono) simp_all
  ultimately show ?thesis
    unfolding round1_def fdiv_def k_def [symmetric] by (simp add: rd_values)
qed

lemma initialTimings_range:
  assumes "t \<in> set (initialTimings segs)"
  shows "5 / 2 \<le> t \<and> t \<le> 12"
proof -
  from assms obtain x where "t = round1 (max (rd (25 / 10)) (min 12 x))"
    by (auto simp: initialTimings_map)
  then show ?thesis
    using round1_clamped [of "max (rd (25 / 10)) (min 12 x)"] by (simp add: rd_values)
qed

lemma wordCount_pos: "1 \<le> wordCount s"
  unfolding wordCount_def by (subst splitSpaces.simps) (simp add: Let_def)

lemma word_sum_ge:
  "of_nat m \<le> a \<Longrightarrow> m + length segs < 2 ^ 53 \<Longrightarrow>
   of_nat (m + length segs)
     \<le> foldl (\<lambda>sum segment. fadd sum (of_nat (wordCount segment))) a segs"
proof (induction segs arbitrary: a m)
  case Nil
  then show ?case by simp
next
  case (Cons s segs)
  have w: "(1 :: rat) \<le> of_nat (wordCount s)" using wordCount_pos [of s] by simp
  have "rd (of_nat (Suc m)) \<le> rd (a + of_nat (wordCount s))"
    using Cons.prems(1) w by (intro rd_mono) simp_all
  moreover have "rd (of_nat (Suc m)) = of_nat (Suc m)"
    using Cons.prems(2) by (intro rd_of_nat) simp
  ultimately have "of_nat (Suc m) \<le> fadd a (of_nat (wordCount s))"
    unfolding fadd_def by simp
  then have "of_nat (Suc m + length segs)
      \<le> foldl (\<lambda>sum segment. fadd sum (of_nat (wordCount segment)))
          (fadd a (of_nat (wordCount s))) segs"
    using Cons.prems(2) by (intro Cons.IH) simp_all
  then show ?case by simp
qed

lemma avgWordsPerSegment_ge_1:
  assumes "segs \<noteq> []" and "length segs \<le> 6"
  shows "1 \<le> avgWordsPerSegment segs"
proof -
  let ?W = "foldl (\<lambda>sum segment. fadd sum (of_nat (wordCount segment))) 0 segs"
  have "of_nat (0 + length segs) \<le> ?W"
    using assms(2) by (intro word_sum_ge) simp_all
  then have W: "of_nat (length segs) \<le> ?W" by simp
  have n: "(0 :: rat) < of_nat (length segs)" using assms(1) by simp
  have "1 \<le> ?W / of_nat (length segs)" using W n by (simp add: field_simps)
  then have "rd 1 \<le> rd (?W / of_nat (length segs))" by (intro rd_mono) simp_all
  then show ?thesis unfolding avgWordsPerSegment_def fdiv_def by (simp add: rd_1)
qed

lemma targetDuration_range:
  assumes "segs \<noteq> []" and "length segs \<le> 6"
  shows "26 \<le> targetDuration segs \<and> targetDuration segs \<le> 40"
proof -
  define r where "r = min (fdiv (avgWordsPerSegment segs) 15) 1"
  have a: "1 \<le> avgWordsPerSegment segs" by (rule avgWordsPerSegment_ge_1 [OF assms])
  have "rd (1 / 15) \<le> rd (avgWordsPerSegment segs / 15)" using a by (intro rd_mono) simp_all
  then have lo: "rd (1 / 15) \<le> r" unfolding r_def fdiv_def using least_target(1) by simp
  have hi: "r \<le> 1" unfolding r_def by simp
  have p: "0 \<le> rd (1 / 15)" by (intro rd_nonneg) simp
  have m: "fsub MAX_TARGET_DURATION MIN_TARGET_DURATION = 15"
    unfolding fsub_def MAX_TARGET_DURATION_def MIN_TARGET_DURATION_def by (simp add: rd_values)
  have t: "targetDuration segs = rd (25 + rd (15 * r))"
    unfolding targetDuration_def Let_def r_def [symmetric] m
    by (simp add: fadd_def fmul_def MIN_TARGET_DURATION_def)
  have "rd (15 * rd (1 / 15)) \<le> rd (15 * r)" using lo p by (intro rd_mono) simp_all
  moreover have p2: "0 \<le> rd (15 * rd (1 / 15))" using p by (intro rd_nonneg) simp
  ultimately have "rd (25 + rd (15 * rd (1 / 15))) \<le> rd (25 + rd (15 * r))"
    by (intro rd_mono) simp_all
  then have l: "26 \<le> targetDuration segs" unfolding t least_target(2) .
  have "rd (15 * r) \<le> rd 15" using hi lo p by (intro rd_mono) simp_all
  then have "rd (15 * r) \<le> 15" by (simp add: rd_values)
  moreover have "0 \<le> rd (15 * r)" using lo p by (intro rd_nonneg) simp
  ultimately have "rd (25 + rd (15 * r)) \<le> rd 40" by (intro rd_mono) simp_all
  then have u: "targetDuration segs \<le> 40" unfolding t by (simp add: rd_values)
  show ?thesis using l u by simp
qed

lemma calculateOptimalTimings_cases:
  "calculateOptimalTimings segs =
     (if total (initialTimings segs) < 25 \<or> 40 < total (initialTimings segs)
      then map (\<lambda>t. round1 (fmul t (fdiv (targetDuration segs) (total (initialTimings segs)))))
             (initialTimings segs)
      else initialTimings segs)"
  unfolding calculateOptimalTimings_def needsRescale_def MIN_TARGET_DURATION_def
    MAX_TARGET_DURATION_def
  by (simp add: rescaleLoop_map Let_def)

lemma length_calculateOptimalTimings: "length (calculateOptimalTimings segs) = length segs"
  by (simp add: calculateOptimalTimings_cases length_initialTimings)

subsection \<open>The rounding error of the sums and of the rescale\<close>

lemma round1_err:
  assumes "0 \<le> p" and "p \<le> 900"
  shows "\<bar>round1 p - p\<bar> \<le> 1 / 20 + 2 / 100000000000 \<and> 0 \<le> round1 p \<and> round1 p \<le> 1000"
proof -
  define y where "y = rd (p * 10)"
  define k where "k = math_round y"
  define z where "z = (of_int k :: rat) / 10"
  have ey: "\<bar>y - p * 10\<bar> \<le> 1 / 100000000000"
    unfolding y_def using assms by (intro rd_err_small) simp_all
  have y0: "0 \<le> y" unfolding y_def using assms by (intro rd_nonneg) simp
  have kb: "of_int k \<le> y + 1 / 2" "y - 1 / 2 < of_int k"
    unfolding k_def using math_round_bounds [of y] by simp_all
  have "math_round 0 \<le> math_round y" using y0 by (rule math_round_mono)
  then have "0 \<le> k" unfolding k_def using math_round_int [of 0] by simp
  then have z0: "0 \<le> z" unfolding z_def by simp
  have zu: "z \<le> 10000" unfolding z_def using kb ey assms by linarith
  have ez: "\<bar>rd z - z\<bar> \<le> 1 / 100000000000" using z0 zu by (rule rd_err_small)
  have r: "round1 p = rd z" unfolding round1_def fdiv_def fmul_def z_def k_def y_def ..
  have zy: "\<bar>z - y / 10\<bar> \<le> 1 / 20" unfolding z_def using kb by linarith
  have "\<bar>rd z - p\<bar> \<le> 1 / 20 + 2 / 100000000000" using ez zy ey by linarith
  moreover have "0 \<le> rd z" using z0 by (rule rd_nonneg)
  moreover have "rd z \<le> 1000" using ez zy ey assms by linarith
  ultimately show ?thesis unfolding r by simp
qed

lemma rescaled_err:
  assumes "0 \<le> t" and "t \<le> 12" and "0 \<le> f" and "f \<le> 21"
  shows "\<bar>round1 (fmul t f) - t * f\<bar> \<le> 1 / 20 + 3 / 100000000000
       \<and> 0 \<le> round1 (fmul t f) \<and> round1 (fmul t f) \<le> 1000"
proof -
  have tf0: "0 \<le> t * f" using assms by simp
  have "t * f \<le> 12 * 21" using assms by (intro mult_mono) simp_all
  then have tfu: "t * f \<le> 252" by simp
  have e: "\<bar>rd (t * f) - t * f\<bar> \<le> 1 / 100000000000" using tf0 tfu by (intro rd_err_small) simp_all
  have p0: "0 \<le> rd (t * f)" using tf0 by (rule rd_nonneg)
  have pu: "rd (t * f) \<le> 900" using e tfu by linarith
  show ?thesis
    using round1_err [OF p0 pu] e unfolding fmul_def by linarith
qed

lemma foldl_fadd_err:
  "0 \<le> a \<Longrightarrow> (\<And>t. t \<in> set ts \<Longrightarrow> 0 \<le> t \<and> t \<le> 1000) \<Longrightarrow>
   a + of_nat (length ts) * 1001 \<le> 10000 \<Longrightarrow>
   \<bar>foldl fadd a ts - (a + sum_list ts)\<bar> \<le> of_nat (length ts) / 100000000000"
proof (induction ts arbitrary: a)
  case Nil
  then show ?case by simp
next
  case (Cons t ts)
  have t: "0 \<le> t" "t \<le> 1000" using Cons.prems(2) [of t] by simp_all
  have len: "(of_nat (length (t # ts)) :: rat) = 1 + of_nat (length ts)" by simp
  have b: "a + (1 + of_nat (length ts)) * 1001 \<le> 10000" using Cons.prems(3) unfolding len .
  have n0: "(0 :: rat) \<le> of_nat (length ts)" by simp
  have b': "a + 1001 + of_nat (length ts) * 1001 \<le> 10000" using b by (simp add: algebra_simps)
  have au: "a + t \<le> 10000" using b' t n0 by linarith
  have e: "\<bar>rd (a + t) - (a + t)\<bar> \<le> 1 / 100000000000"
    using Cons.prems(1) t au by (intro rd_err_small) simp_all
  have a0: "0 \<le> rd (a + t)" using Cons.prems(1) t by (intro rd_nonneg) simp
  have "rd (a + t) + of_nat (length ts) * 1001 \<le> 10000"
    using e b' t by linarith
  then have ih: "\<bar>foldl fadd (rd (a + t)) ts - (rd (a + t) + sum_list ts)\<bar>
      \<le> of_nat (length ts) / 100000000000"
    using a0 Cons.prems(2) by (intro Cons.IH) simp_all
  have "foldl fadd a (t # ts) = foldl fadd (rd (a + t)) ts" by (simp add: fadd_def)
  moreover have "(of_nat (length (t # ts)) :: rat) / 100000000000
      = 1 / 100000000000 + of_nat (length ts) / 100000000000"
    unfolding len by (simp add: add_divide_distrib)
  moreover have "a + sum_list (t # ts) = a + t + sum_list ts" by simp
  ultimately show ?case using ih e by linarith
qed

lemma total_err:
  assumes "\<And>t. t \<in> set ts \<Longrightarrow> 0 \<le> t \<and> t \<le> 1000" and "length ts \<le> 6"
  shows "\<bar>total ts - sum_list ts\<bar> \<le> 6 / 100000000000"
proof -
  have n: "(of_nat (length ts) :: rat) \<le> 6" using assms(2) by simp
  then have "(0 :: rat) + of_nat (length ts) * 1001 \<le> 10000" by simp
  then have "\<bar>foldl fadd 0 ts - (0 + sum_list ts)\<bar> \<le> of_nat (length ts) / 100000000000"
    using assms(1) by (intro foldl_fadd_err) simp_all
  moreover have "(of_nat (length ts) :: rat) / 100000000000 \<le> 6 / 100000000000"
    using n by (simp add: divide_right_mono)
  ultimately show ?thesis unfolding total_foldl by simp
qed

lemma sum_list_diff_bound:
  fixes g h :: "rat \<Rightarrow> rat"
  assumes "\<And>t. t \<in> set ts \<Longrightarrow> \<bar>g t - h t\<bar> \<le> c"
  shows "\<bar>sum_list (map g ts) - sum_list (map h ts)\<bar> \<le> of_nat (length ts) * c"
  using assms
proof (induction ts)
  case Nil
  then show ?case by simp
next
  case (Cons t ts)
  have a: "\<bar>g t - h t\<bar> \<le> c" using Cons.prems [of t] by simp
  have b: "\<bar>sum_list (map g ts) - sum_list (map h ts)\<bar> \<le> of_nat (length ts) * c"
    using Cons.prems by (intro Cons.IH) simp
  have "(of_nat (length (t # ts)) :: rat) * c = c + of_nat (length ts) * c"
    by (simp add: algebra_simps)
  then show ?case using a b by simp
qed

lemma sum_list_scaled: "sum_list (map (\<lambda>t. t * c) ts) = sum_list ts * (c :: rat)"
  by (induction ts) (simp_all add: distrib_right)

lemma sum_list_range:
  fixes ts :: "rat list"
  assumes "\<And>t. t \<in> set ts \<Longrightarrow> lo \<le> t \<and> t \<le> hi"
  shows "of_nat (length ts) * lo \<le> sum_list ts \<and> sum_list ts \<le> of_nat (length ts) * hi"
  using assms
proof (induction ts)
  case Nil
  then show ?case by simp
next
  case (Cons t ts)
  have a: "lo \<le> t \<and> t \<le> hi" using Cons.prems [of t] by simp
  have b: "of_nat (length ts) * lo \<le> sum_list ts \<and> sum_list ts \<le> of_nat (length ts) * hi"
    using Cons.prems by (intro Cons.IH) simp
  show ?case using a b by (simp add: algebra_simps)
qed

lemma rescaled_total:
  assumes ts: "\<And>t. t \<in> set ts \<Longrightarrow> 5 / 2 \<le> t \<and> t \<le> 12"
    and ne: "ts \<noteq> []" and len: "length ts \<le> 6"
    and tg: "26 \<le> tg" "tg \<le> 40"
  shows "\<bar>total (map (\<lambda>t. round1 (fmul t (fdiv tg (total ts)))) ts) - tg\<bar>
           \<le> 3 / 10 + 216 / 100000000000"
proof -
  define S where "S = sum_list ts"
  define T where "T = total ts"
  define q where "q = tg / T"
  define f where "f = rd q"
  define n where "n = (of_nat (length ts) :: rat)"
  define new where "new = map (\<lambda>t. round1 (fmul t f)) ts"
  have n1: "1 \<le> n" using ne unfolding n_def by (cases ts) simp_all
  have n6: "n \<le> 6" using len unfolding n_def by simp
  have "n * (5 / 2) \<le> S \<and> S \<le> n * 12"
    unfolding n_def S_def using ts by (intro sum_list_range) simp
  then have S: "5 / 2 \<le> S" "S \<le> 72" using n1 n6 by linarith+
  have ts': "\<And>t. t \<in> set ts \<Longrightarrow> 0 \<le> t \<and> t \<le> 1000" using ts by fastforce
  have TS: "\<bar>T - S\<bar> \<le> 6 / 100000000000"
    unfolding T_def S_def using ts' len by (rule total_err)
  have T: "2 \<le> T" "T \<le> 73" using TS S by linarith+
  have q0: "0 \<le> q" unfolding q_def using tg T by simp
  have "tg \<le> 20 * T" using tg T by linarith
  then have q20: "q \<le> 20" unfolding q_def using T by (simp add: field_simps)
  have fq: "\<bar>f - q\<bar> \<le> 1 / 100000000000"
    unfolding f_def using q0 q20 by (intro rd_err_small) simp_all
  have f0: "0 \<le> f" unfolding f_def using q0 by (rule rd_nonneg)
  have f21: "f \<le> 21" using fq q20 by linarith
  have each: "\<And>t. t \<in> set ts \<Longrightarrow>
      \<bar>round1 (fmul t f) - t * f\<bar> \<le> 1 / 20 + 3 / 100000000000
      \<and> 0 \<le> round1 (fmul t f) \<and> round1 (fmul t f) \<le> 1000"
  proof -
    fix t assume "t \<in> set ts"
    then have "0 \<le> t" "t \<le> 12" using ts [of t] by simp_all
    then show "\<bar>round1 (fmul t f) - t * f\<bar> \<le> 1 / 20 + 3 / 100000000000
      \<and> 0 \<le> round1 (fmul t f) \<and> round1 (fmul t f) \<le> 1000"
      using f0 f21 by (intro rescaled_err)
  qed
  have "\<bar>sum_list (map (\<lambda>t. round1 (fmul t f)) ts) - sum_list (map (\<lambda>t. t * f) ts)\<bar>
      \<le> of_nat (length ts) * (1 / 20 + 3 / 100000000000)"
    using each by (intro sum_list_diff_bound) simp
  then have d1: "\<bar>sum_list new - S * f\<bar> \<le> n * (1 / 20 + 3 / 100000000000)"
    unfolding new_def S_def n_def sum_list_scaled .
  have "n * (1 / 20 + 3 / 100000000000) \<le> 6 * (1 / 20 + 3 / 100000000000)"
    using n6 by (intro mult_right_mono) simp_all
  moreover have "(6 :: rat) * (1 / 20 + 3 / 100000000000) = 3 / 10 + 18 / 100000000000"
    by simp
  ultimately have d1': "\<bar>sum_list new - S * f\<bar> \<le> 3 / 10 + 18 / 100000000000"
    using d1 by (simp only:)
  have qT: "q * T = tg" unfolding q_def using T by simp
  have split: "S * f - tg = S * (f - q) + q * (S - T)"
    using qT by (simp add: algebra_simps)
  have "\<bar>S * (f - q)\<bar> = S * \<bar>f - q\<bar>" using S by (simp add: abs_mult)
  also have "\<dots> \<le> 72 * (1 / 100000000000)"
    using S fq by (intro mult_mono) simp_all
  finally have a: "\<bar>S * (f - q)\<bar> \<le> 72 / 100000000000" by simp
  have "\<bar>q * (S - T)\<bar> = q * \<bar>S - T\<bar>" using q0 by (simp add: abs_mult)
  also have "\<dots> \<le> 20 * (6 / 100000000000)"
    using q0 q20 TS by (intro mult_mono) (simp_all add: abs_minus_commute)
  finally have b: "\<bar>q * (S - T)\<bar> \<le> 120 / 100000000000" by simp
  have d2: "\<bar>S * f - tg\<bar> \<le> 192 / 100000000000" unfolding split using a b by linarith
  have new': "\<And>t. t \<in> set new \<Longrightarrow> 0 \<le> t \<and> t \<le> 1000"
    unfolding new_def using each by auto
  have "length new \<le> 6" unfolding new_def using len by simp
  with new' have d3: "\<bar>total new - sum_list new\<bar> \<le> 6 / 100000000000" by (rule total_err)
  have "\<bar>total new - tg\<bar> \<le> 3 / 10 + 216 / 100000000000" using d1' d2 d3 by linarith
  then show ?thesis unfolding new_def f_def q_def T_def fdiv_def .
qed

subsection \<open>The allocations of the concrete texts\<close>

lemma text_counts:
  "wordCount ''a a a a a a a a a a a a a a'' = 14" "charCount ''a a a a a a a a a a a a a a'' = 27"
  "wordCount ''a a a a a a a'' = 7" "charCount ''a a a a a a a'' = 13"
  "wordCount ''a a a a'' = 4" "charCount ''a a a a'' = 7"
  "wordCount ''a a a'' = 3" "charCount ''a a a'' = 5"
  "wordCount ''hello'' = 1" "charCount ''hello'' = 5"
  "wordCount ''now'' = 1" "charCount ''now'' = 3"
  by code_simp+

lemma text_marks:
  "punctuationCount ''a a a a a a a a a a a a a a'' = 0"
  "hasEmphasis ''a a a a a a a a a a a a a a'' = False"
  "hasCallToAction ''a a a a a a a a a a a a a a'' = False"
  "punctuationCount ''a a a a a a a'' = 0" "hasEmphasis ''a a a a a a a'' = False"
  "hasCallToAction ''a a a a a a a'' = False"
  "punctuationCount ''a a a a'' = 0" "hasEmphasis ''a a a a'' = False"
  "hasCallToAction ''a a a a'' = False"
  "punctuationCount ''a a a'' = 0" "hasEmphasis ''a a a'' = False"
  "hasCallToAction ''a a a'' = False"
  "punctuationCount ''hello'' = 0" "hasEmphasis ''hello'' = False"
  "hasCallToAction ''hello'' = False"
  "punctuationCount ''now'' = 0" "hasEmphasis ''now'' = False" "hasCallToAction ''now'' = True"
  by code_simp+

lemmas allocator_eval = calculateOptimalTimings_def initialTimings_def targetDuration_def
  avgWordsPerSegment_def segmentWeight_def specWeight_def baseWeight_def total_def
  needsRescale_def rescaleLoop_def MIN_TARGET_DURATION_def MAX_TARGET_DURATION_def
  round1_def math_round_def text_counts text_marks float_eval

lemma four_target: "targetDuration fourSegments = 31"
  unfolding fourSegments_def by (simp add: allocator_eval)

lemma four_initial:
  "initialTimings fourSegments = [12, rd (52 / 10), rd (39 / 10), rd (39 / 10)]"
  unfolding fourSegments_def by (simp add: allocator_eval)

lemma four_initial_total: "total (initialTimings fourSegments) < 25"
  unfolding four_initial by (simp add: total_def float_eval)

lemma four_result:
  "calculateOptimalTimings fourSegments = [rd (149 / 10), rd (64 / 10), rd (48 / 10), rd (48 / 10)]"
  unfolding fourSegments_def by (simp add: allocator_eval)

lemma three_target: "targetDuration threeSegments = 30"
  unfolding threeSegments_def by (simp add: allocator_eval)

lemma three_initial: "initialTimings threeSegments = [12, 8, 8]"
  unfolding threeSegments_def by (simp add: allocator_eval)

lemma three_result: "calculateOptimalTimings threeSegments = [12, 8, 8]"
  unfolding threeSegments_def by (simp add: allocator_eval)

lemma hello_result: "calculateOptimalTimings [''hello''] = [26]"
  by (simp add: allocator_eval)

section \<open>Claims about the timing allocator\<close>

text \<open>
  Claim C1, as amended. For 1 to 6 segments \<open>calculateOptimalTimings\<close> returns one timing
  per segment; every timing of the initial allocation (the clamped, rounded shares, before
  any rescale) lies within 2.5 and 12 seconds; the sum of the returned timings, added up in
  doubles as the code adds it, lies within 25 and 40.3 seconds, the excess over 40 being
  one rounding step of 0.05 per segment, up to a millionth for the rounding of the doubles;
  and when the function applies no rescale the returned timings are the initial ones and
  so lie within 2.5 and 12. A rescaled timing is not clamped again: it may leave that range.
\<close>

theorem calculateOptimalTimings_bounds:
  assumes "voiceoverSegments \<noteq> []" and "length voiceoverSegments \<le> 6"
  shows "length (calculateOptimalTimings voiceoverSegments) = length voiceoverSegments
       \<and> (\<forall>t \<in> set (initialTimings voiceoverSegments). 25 / 10 \<le> t \<and> t \<le> 12)
       \<and> 25 \<le> total (calculateOptimalTimings voiceoverSegments)
       \<and> total (calculateOptimalTimings voiceoverSegments) \<le> 403 / 10 + 1 / 1000000
       \<and> (\<not> needsRescale (total (initialTimings voiceoverSegments)) \<longrightarrow>
            (\<forall>t \<in> set (calculateOptimalTimings voiceoverSegments). 25 / 10 \<le> t \<and> t \<le> 12))"
proof -
  let ?segs = voiceoverSegments
  let ?ts = "initialTimings ?segs"
  have len: "length (calculateOptimalTimings ?segs) = length ?segs"
    by (rule length_calculateOptimalTimings)
  have init: "\<forall>t \<in> set ?ts. 25 / 10 \<le> t \<and> t \<le> 12"
    using initialTimings_range [of _ ?segs] by simp
  have sums: "25 \<le> total (calculateOptimalTimings ?segs)
            \<and> total (calculateOptimalTimings ?segs) \<le> 403 / 10 + 1 / 1000000"
  proof (cases "total ?ts < 25 \<or> 40 < total ?ts")
    case True
    have r: "\<And>t. t \<in> set ?ts \<Longrightarrow> 5 / 2 \<le> t \<and> t \<le> 12" by (rule initialTimings_range)
    have ne: "?ts \<noteq> []" using assms(1) length_initialTimings [of ?segs] by auto
    have l6: "length ?ts \<le> 6" using assms(2) by (simp add: length_initialTimings)
    have tg: "26 \<le> targetDuration ?segs" "targetDuration ?segs \<le> 40"
      using targetDuration_range [OF assms] by simp_all
    have "\<bar>total (map (\<lambda>t. round1 (fmul t (fdiv (targetDuration ?segs) (total ?ts)))) ?ts)
            - targetDuration ?segs\<bar> \<le> 3 / 10 + 216 / 100000000000"
      using r ne l6 tg by (rule rescaled_total)
    moreover have "calculateOptimalTimings ?segs
        = map (\<lambda>t. round1 (fmul t (fdiv (targetDuration ?segs) (total ?ts)))) ?ts"
      using True by (simp add: calculateOptimalTimings_cases)
    ultimately have "\<bar>total (calculateOptimalTimings ?segs) - targetDuration ?segs\<bar>
        \<le> 3 / 10 + 216 / 100000000000"
      by simp
    then have "total (calculateOptimalTimings ?segs) - targetDuration ?segs
          \<le> 3 / 10 + 216 / 100000000000"
        and "- (total (calculateOptimalTimings ?segs) - targetDuration ?segs)
          \<le> 3 / 10 + 216 / 100000000000"
      by (simp_all only: abs_le_iff)
    then show ?thesis using tg by linarith
  next
    case False
    then have "calculateOptimalTimings ?segs = ?ts"
      by (simp add: calculateOptimalTimings_cases)
    with False show ?thesis by simp
  qed
  have keep: "\<not> needsRescale (total ?ts) \<longrightarrow>
       (\<forall>t \<in> set (calculateOptimalTimings ?segs). 25 / 10 \<le> t \<and> t \<le> 12)"
  proof
    assume "\<not> needsRescale (total ?ts)"
    then have "calculateOptimalTimings ?segs = ?ts"
      unfolding needsRescale_def MIN_TARGET_DURATION_def MAX_TARGET_DURATION_def
      by (simp add: calculateOptimalTimings_cases)
    with init show "\<forall>t \<in> set (calculateOptimalTimings ?segs). 25 / 10 \<le> t \<and> t \<le> 12"
      by simp
  qed
  from len init sums keep show ?thesis by blast
qed

theorem calculateOptimalTimings_bounds_witness:
  "length (calculateOptimalTimings fourSegments) = 4
   \<and> initialTimings fourSegments = [12, rd (52 / 10), rd (39 / 10), rd (39 / 10)]
   \<and> calculateOptimalTimings fourSegments
       = [rd (149 / 10), rd (64 / 10), rd (48 / 10), rd (48 / 10)]
   \<and> 25 \<le> total (calculateOptimalTimings fourSegments)
   \<and> total (calculateOptimalTimings fourSegments) \<le> 403 / 10 + 1 / 1000000
   \<and> calculateOptimalTimings threeSegments = [12, 8, 8]"
proof -
  have h1: "fourSegments \<noteq> []" by (simp add: fourSegments_def)
  have h2: "length fourSegments \<le> 6" by (simp add: fourSegments_def)
  have l: "length fourSegments = 4" by (simp add: fourSegments_def)
  show ?thesis
    using calculateOptimalTimings_bounds [OF h1 h2] four_initial four_result three_result l
    by simp
qed

text \<open>
  The claim as it stands fails on a single segment: its share of the target is clamped to
  12, the total 12 is below 25, and the rescale returns the whole target, 26 seconds,
  which is above 12.
\<close>

theorem calculateOptimalTimings_single_segment:
  "calculateOptimalTimings [''hello''] = [26] \<and> \<not> (26 :: num) \<le> 12"
  by (simp add: hello_result)

text \<open>
  Claim C5, as amended. The rescale is guarded by the range of the total, not by its
  distance from the target: when the sum of the clamped, rounded timings, added up in
  doubles, is below 25 or above 40, every timing is multiplied by
  \<open>targetDuration / actualTotal\<close> and rounded to one decimal place; when the sum lies
  within 25 and 40 the timings are returned as they are, whether or not the sum equals
  the target.
\<close>

theorem calculateOptimalTimings_rescale_guard:
  "(total (initialTimings segs) < 25 \<or> 40 < total (initialTimings segs) \<longrightarrow>
      calculateOptimalTimings segs =
        map (\<lambda>t. round1 (fmul t (fdiv (targetDuration segs) (total (initialTimings segs)))))
          (initialTimings segs))
   \<and> (25 \<le> total (initialTimings segs) \<and> total (initialTimings segs) \<le> 40 \<longrightarrow>
      calculateOptimalTimings segs = initialTimings segs)"
  by (simp add: calculateOptimalTimings_cases)

theorem calculateOptimalTimings_rescale_guard_witness:
  "calculateOptimalTimings fourSegments =
     map (\<lambda>t. round1 (fmul t (fdiv (targetDuration fourSegments)
                                  (total (initialTimings fourSegments)))))
       (initialTimings fourSegments)
   \<and> calculateOptimalTimings fourSegments
       = [rd (149 / 10), rd (64 / 10), rd (48 / 10), rd (48 / 10)]
   \<and> calculateOptimalTimings threeSegments = initialTimings threeSegments"
proof -
  have low: "total (initialTimings fourSegments) < 25 \<or> 40 < total (initialTimings fourSegments)"
    using four_initial_total by simp
  have mid: "25 \<le> total (initialTimings threeSegments)
      \<and> total (initialTimings threeSegments) \<le> 40"
    unfolding three_initial by (simp add: total_def float_eval)
  show ?thesis
    using calculateOptimalTimings_rescale_guard [of fourSegments]
      calculateOptimalTimings_rescale_guard [of threeSegments] low mid four_result
    by blast
qed

text \<open>
  The claim as it stands fails on three segments of 7, 4 and 4 words: the target is 30,
  the clamped timings are 12, 8 and 8 with the sum 28, which deviates from the target, and
  the timings are returned as they are and not as the rescale by \<open>30 / 28\<close> would make
  them, 12.9, 8.6 and 8.6.
\<close>

theorem calculateOptimalTimings_deviation_kept:
  "targetDuration threeSegments = 30
   \<and> initialTimings threeSegments = [12, 8, 8]
   \<and> total [12, 8, 8] = 28
   \<and> calculateOptimalTimings threeSegments = [12, 8, 8]
   \<and> rescaleLoop (fdiv 30 28) [12, 8, 8] = [rd (129 / 10), rd (86 / 10), rd (86 / 10)]"
proof -
  have "total [12, 8, 8] = 28" by (simp add: total_def float_eval)
  moreover have "rescaleLoop (fdiv 30 28) [12, 8, 8] = [rd (129 / 10), rd (86 / 10), rd (86 / 10)]"
    by (simp add: rescaleLoop_def round1_def math_round_def float_eval)
  ultimately show ?thesis using three_target three_initial three_result by simp
qed

text \<open>
  Claim C6, as amended. The weight of a segment is its base value
  \<open>0.7 * wordCount + 0.02 * charCount + 0.5 * punctuationCount\<close>, multiplied by 1.2 when
  the text has an emphasis marker and by 1.1 when it has call-to-action language, and
  floored at 2 after the boosts. So it is never below 2 and never above the weight the
  specification words, where the floor comes first.
\<close>

theorem segmentWeight_floor_after_boosts:
  "segmentWeight segment =
     max 2 (if hasCallToAction segment
            then fmul (if hasEmphasis segment then fmul (baseWeight segment) (rd (12 / 10))
                       else baseWeight segment) (rd (11 / 10))
            else (if hasEmphasis segment then fmul (baseWeight segment) (rd (12 / 10))
                  else baseWeight segment))
   \<and> 2 \<le> segmentWeight segment
   \<and> segmentWeight segment \<le> specWeight segment"
proof -
  define b where "b = baseWeight segment"
  define e where "e = rd (12 / 10)"
  define c where "c = rd (11 / 10)"
  have e1: "1 \<le> e" unfolding e_def by (rule boost_factors)
  have c1: "1 \<le> c" unfolding c_def by (rule boost_factors)
  have b0: "0 \<le> b"
    unfolding b_def baseWeight_def fadd_def fmul_def
    by (intro rd_nonneg add_nonneg_nonneg mult_nonneg_nonneg) simp_all
  have eq: "segmentWeight segment =
     max 2 (if hasCallToAction segment
            then fmul (if hasEmphasis segment then fmul b e else b) c
            else (if hasEmphasis segment then fmul b e else b))"
    unfolding segmentWeight_def Let_def b_def e_def c_def by (simp add: max.commute)
  have sp: "specWeight segment =
     (if hasCallToAction segment
      then fmul (if hasEmphasis segment then fmul (max b 2) e else max b 2) c
      else (if hasEmphasis segment then fmul (max b 2) e else max b 2))"
    unfolding specWeight_def Let_def b_def e_def c_def by simp
  have up: "\<And>x y k. 0 \<le> x \<Longrightarrow> x \<le> y \<Longrightarrow> 1 \<le> k \<Longrightarrow> fmul x k \<le> fmul y k"
    unfolding fmul_def by (intro rd_mono mult_nonneg_nonneg mult_right_mono) simp_all
  have keep2: "\<And>y k. 2 \<le> y \<Longrightarrow> 1 \<le> k \<Longrightarrow> 2 \<le> fmul y k"
  proof -
    fix y k :: rat assume y: "2 \<le> y" and k: "1 \<le> k"
    have "2 * 1 \<le> y * k" using y k by (intro mult_mono) simp_all
    then have "rd 2 \<le> rd (y * k)" by (intro rd_mono) simp_all
    then show "2 \<le> fmul y k" unfolding fmul_def by (simp add: rd_values)
  qed
  have pos: "\<And>x k. 0 \<le> x \<Longrightarrow> 1 \<le> k \<Longrightarrow> 0 \<le> fmul x k"
    unfolding fmul_def by (intro rd_nonneg mult_nonneg_nonneg) simp_all
  have m: "b \<le> max b 2" "2 \<le> max b 2" by simp_all
  have le: "segmentWeight segment \<le> specWeight segment"
  proof (cases "hasEmphasis segment")
    case True
    have s1: "fmul b e \<le> fmul (max b 2) e" by (rule up [OF b0 m(1) e1])
    have s2: "2 \<le> fmul (max b 2) e" by (rule keep2 [OF m(2) e1])
    show ?thesis
    proof (cases "hasCallToAction segment")
      case c: True
      have "fmul (fmul b e) c \<le> fmul (fmul (max b 2) e) c"
        by (rule up [OF pos [OF b0 e1] s1 c1])
      moreover have "2 \<le> fmul (fmul (max b 2) e) c" by (rule keep2 [OF s2 c1])
      ultimately show ?thesis unfolding eq sp using True c by simp
    next
      case False
      then show ?thesis unfolding eq sp using True s1 s2 by simp
    qed
  next
    case False
    show ?thesis
    proof (cases "hasCallToAction segment")
      case True
      have "fmul b c \<le> fmul (max b 2) c" by (rule up [OF b0 m(1) c1])
      moreover have "2 \<le> fmul (max b 2) c" by (rule keep2 [OF m(2) c1])
      ultimately show ?thesis unfolding eq sp using True False by simp
    next
      case f: False
      then show ?thesis unfolding eq sp using False by simp
    qed
  qed
  show ?thesis using eq le unfolding b_def e_def c_def by simp
qed

text \<open>
  The claim as it stands fails on the text \<open>now\<close>: its base value is 0.76, the boost
  gives 0.836, the floor gives 2, where the floor before the boost would give 2.2.
\<close>

theorem segmentWeight_now:
  "segmentWeight ''now'' = 2 \<and> specWeight ''now'' = rd (22 / 10)"
  by (simp add: allocator_eval)

section \<open>The compositor: what the arithmetic and the loops compute\<close>

lemma numCrossfades_eq: "numCrossfades n = n - 1"
  unfolding numCrossfades_def by simp

lemma totalCrossfadeDuration_eq: "totalCrossfadeDuration n = fmul (of_nat (n - 1)) 1"
  unfolding totalCrossfadeDuration_def numCrossfades_eq fadeDuration_def
  by (cases "1 < n") (simp_all add: fmul_def)

lemma totalCrossfadeDuration_exact:
  "n < 2 ^ 53 \<Longrightarrow> totalCrossfadeDuration n = of_nat (n - 1)"
  unfolding totalCrossfadeDuration_eq fmul_def by (simp add: rd_of_nat)

lemma calculatedVideoDuration_eq:
  "calculatedVideoDuration n timings = fsub (total timings) (fmul (of_nat (n - 1)) 1)"
  unfolding calculatedVideoDuration_def rawVideoDuration_def totalCrossfadeDuration_eq by simp

lemma encodeTargetDuration_clamp: "encodeTargetDuration a = clamp a 25 40"
  unfolding encodeTargetDuration_def clamp_def by simp

lemma adjustedTimings_cases:
  "adjustedTimings n a ts =
     (if 1 / 2 < \<bar>fsub a (fsub (total ts) (fmul (of_nat (n - 1)) 1))\<bar>
      then (if total ts = 0 then None
            else Some (map (\<lambda>t. fmul t (fdiv (fadd (clamp a 25 40) (fmul (of_nat (n - 1)) 1))
                                          (total ts))) ts))
      else Some ts)"
  unfolding adjustedTimings_def targetRawDuration_def Let_def scaleBy_def
    calculatedVideoDuration_eq rawVideoDuration_def totalCrossfadeDuration_eq
    encodeTargetDuration_clamp
  by (simp add: rd_values)

lemma xfadeDurations_append: "xfadeDurations (xs @ ys) = xfadeDurations xs @ xfadeDurations ys"
  by (induction xs rule: xfadeDurations.induct) simp_all

lemma xfadeOffsets_append: "xfadeOffsets (xs @ ys) = xfadeOffsets xs @ xfadeOffsets ys"
  by (induction xs rule: xfadeOffsets.induct) simp_all

lemma segmentChains_map:
  "segmentChains n adjusted =
     map (\<lambda>i. SegmentChain (InputV i) 1 (rd (105 / 100)) \<lfloor>fmul (adjusted ! i) 30\<rfloor>
                 (adjusted ! i) (SegV i)) [0..<n]"
  unfolding segmentChains_def segmentChain_def Let_def by (simp add: foldl_push)

lemma xfade_segmentChains:
  "xfadeDurations (segmentChains n adjusted) = [] \<and> xfadeOffsets (segmentChains n adjusted) = []"
  unfolding segmentChains_map by (induction n) (simp_all add: xfadeDurations_append xfadeOffsets_append)

lemma offsetSum_Suc:
  "offsetSum fade adjusted (Suc k) = fadd (offsetSum fade adjusted k) (fsub (adjusted ! k) fade)"
  unfolding offsetSum_def offsetStep_def by simp

lemma xfade_loop:
  "foldl (xfadeStep fade adjusted) (fc, SegV 0, 0) [1..<Suc k] =
     (fc @ map (\<lambda>i. Xfade (chainLabel (i - 1)) (SegV i) fade (max 0 (offsetSum fade adjusted i)) (FadeV i))
            [1..<Suc k],
      chainLabel k, offsetSum fade adjusted k)"
proof (induction k)
  case 0
  then show ?case by (simp add: chainLabel_def offsetSum_def)
next
  case (Suc k)
  have u: "[1..<Suc (Suc k)] = [1..<Suc k] @ [Suc k]" by simp
  have step: "xfadeStep fade adjusted (fc', chainLabel k, offsetSum fade adjusted k) (Suc k)
      = (fc' @ [Xfade (chainLabel k) (SegV (Suc k)) fade
                  (max 0 (offsetSum fade adjusted (Suc k))) (FadeV (Suc k))],
         chainLabel (Suc k), offsetSum fade adjusted (Suc k))" for fc'
    by (simp add: Let_def offsetSum_Suc chainLabel_def)
  show ?case unfolding u foldl_append Suc.IH by (simp add: step del: upt_Suc xfadeStep.simps)
qed

lemma xfade_of_map:
  "xfadeDurations (map (\<lambda>i. Xfade (a i) (b i) d (off i) (c i)) js) = map (\<lambda>i. d) js
   \<and> xfadeOffsets (map (\<lambda>i. Xfade (a i) (b i) d (off i) (c i)) js) = map off js"
  by (induction js) simp_all

lemma buildFilterComplex_xfades:
  "xfadeDurations (buildFilterComplex n adjusted) = replicate (n - 1) 1
   \<and> xfadeOffsets (buildFilterComplex n adjusted)
       = map (\<lambda>i. max 0 (offsetSum 1 adjusted i)) [1..<n]"
proof (cases "n > 1")
  case True
  then obtain k where n: "n = Suc k" by (cases n) auto
  have fade: "fadeDuration (Suc k) = 1" using True n by (simp add: fadeDuration_def)
  have len: "length [1..<Suc k] = k" by simp
  have "xfadeDurations (buildFilterComplex (Suc k) adjusted) = replicate k 1
      \<and> xfadeOffsets (buildFilterComplex (Suc k) adjusted)
          = map (\<lambda>i. max 0 (offsetSum 1 adjusted i)) [1..<Suc k]"
    using True n xfade_segmentChains [of "Suc k" adjusted]
    unfolding buildFilterComplex_def Let_def fade xfade_loop
    by (simp add: xfadeDurations_append xfadeOffsets_append xfade_of_map map_replicate_const
        del: upt_Suc)
  then show ?thesis using n by simp
next
  case False
  then have "n - 1 = 0" and "[1..<n] = []" by simp_all
  then show ?thesis
    using False xfade_segmentChains [of n adjusted]
    unfolding buildFilterComplex_def Let_def
    by (simp add: xfadeDurations_append xfadeOffsets_append)
qed

lemma offsetSum_foldl:
  "offsetSum fade adjusted k = foldl (\<lambda>c j. fadd c (fsub (adjusted ! j) fade)) 0 [0..<k]"
  unfolding offsetSum_def offsetStep_def by simp

text \<open>The frame count of a segment of 4.1 seconds: the product in doubles is below 123.\<close>

lemma segmentChains_frames:
  "segmentChains 1 [rd (41 / 10)]
     = [SegmentChain (InputV 0) 1 (rd (105 / 100)) 122 (rd (41 / 10)) (SegV 0)]"
  unfolding segmentChains_map by (simp add: float_eval)

text \<open>
  What the rescale is for: after it the video duration the compositor computes is the
  target, up to the rounding of the doubles. It is stated for at most 6 timings between
  half a second and 200 seconds and for at most 10 images.
\<close>

lemma member_le_sum_list:
  fixes ts :: "rat list"
  assumes "\<And>u. u \<in> set ts \<Longrightarrow> 0 \<le> u" and "t \<in> set ts"
  shows "t \<le> sum_list ts"
  using assms
proof (induction ts)
  case Nil
  then show ?case by simp
next
  case (Cons u us)
  have u0: "0 \<le> u" using Cons.prems(1) [of u] by simp
  have s0: "0 \<le> sum_list us" using Cons.prems(1) by (intro sum_list_nonneg) simp
  show ?case
  proof (cases "t = u")
    case True
    then show ?thesis using s0 by simp
  next
    case False
    then have "t \<in> set us" using Cons.prems(2) by simp
    then have "t \<le> sum_list us" using Cons.prems(1) by (intro Cons.IH) simp_all
    then show ?thesis using u0 by simp
  qed
qed

lemma adjustedTimings_converges:
  assumes ts: "\<And>t. t \<in> set ts \<Longrightarrow> 1 / 2 \<le> t \<and> t \<le> 200"
    and ne: "ts \<noteq> []" and len: "length ts \<le> 6" and n: "n \<le> 10"
    and gap: "1 / 2 < \<bar>fsub a (calculatedVideoDuration n ts)\<bar>"
  shows "\<exists>adjusted. adjustedTimings n a ts = Some adjusted
           \<and> \<bar>calculatedVideoDuration n adjusted - clamp a 25 40\<bar> \<le> 1 / 10000000"
proof -
  define S where "S = sum_list ts"
  define T where "T = total ts"
  define C where "C = clamp a 25 40"
  define ov where "ov = (of_nat (n - 1) :: rat)"
  define G where "G = rd (C + ov)"
  define q where "q = G / T"
  define f where "f = rd q"
  define m where "m = (of_nat (length ts) :: rat)"
  define new where "new = map (\<lambda>t. fmul t f) ts"
  have m1: "1 \<le> m" using ne unfolding m_def by (cases ts) simp_all
  have m6: "m \<le> 6" using len unfolding m_def by simp
  have "m * (1 / 2) \<le> S \<and> S \<le> m * 200"
    unfolding m_def S_def using ts by (intro sum_list_range) simp
  then have S: "1 / 2 \<le> S" "S \<le> 1200" using m1 m6 by linarith+
  have ts': "\<And>t. t \<in> set ts \<Longrightarrow> 0 \<le> t \<and> t \<le> 1000" using ts by fastforce
  have TS: "\<bar>T - S\<bar> \<le> 6 / 100000000000"
    unfolding T_def S_def using ts' len by (rule total_err)
  have T: "2 / 5 \<le> T" "T \<le> 1201" using TS S by linarith+
  have C: "25 \<le> C" "C \<le> 40" unfolding C_def clamp_def by simp_all
  have "n - 1 < 2 ^ 53" using n by (simp add: less_le_trans [of _ 10])
  then have rov: "rd ov = ov" unfolding ov_def by (rule rd_of_nat)
  have "n - 1 \<le> 9" using n by simp
  then have "(of_nat (n - 1) :: rat) \<le> of_nat 9" by (simp only: of_nat_le_iff)
  then have ov: "0 \<le> ov" "ov \<le> 9" unfolding ov_def by simp_all
  have over: "fmul (of_nat (n - 1)) 1 = ov" unfolding fmul_def ov_def [symmetric] using rov by simp
  have GC: "\<bar>G - (C + ov)\<bar> \<le> 1 / 100000000000"
    unfolding G_def using C ov by (intro rd_err_small) simp_all
  have G: "24 \<le> G" "G \<le> 50" using GC C ov by linarith+
  have q0: "0 \<le> q" unfolding q_def using G T by simp
  have "G \<le> 125 * T" using G T by linarith
  then have q125: "q \<le> 125" unfolding q_def using T by (simp add: field_simps)
  have fq: "\<bar>f - q\<bar> \<le> 1 / 100000000000"
    unfolding f_def using q0 q125 by (intro rd_err_small) simp_all
  have f0: "0 \<le> f" unfolding f_def using q0 by (rule rd_nonneg)
  have qT: "q * T = G" unfolding q_def using T by simp
  have qS: "q * S \<le> 51"
  proof -
    have "q * S = G + q * (S - T)" using qT by (simp add: algebra_simps)
    moreover have "\<bar>q * (S - T)\<bar> = q * \<bar>S - T\<bar>" using q0 by (simp add: abs_mult)
    moreover have "q * \<bar>S - T\<bar> \<le> 125 * (6 / 100000000000)"
      using q0 q125 TS by (intro mult_mono) (simp_all add: abs_minus_commute)
    ultimately show ?thesis using G by linarith
  qed
  have each: "\<And>t. t \<in> set ts \<Longrightarrow>
      \<bar>fmul t f - t * f\<bar> \<le> 1 / 100000000000 \<and> 0 \<le> fmul t f \<and> fmul t f \<le> 1000"
  proof -
    fix t assume t: "t \<in> set ts"
    have t0: "0 \<le> t" and t200: "t \<le> 200" using ts [OF t] by simp_all
    have "t \<le> S" unfolding S_def using ts' t by (intro member_le_sum_list) simp_all
    then have "t * q \<le> S * q" using q0 by (intro mult_right_mono)
    then have tq: "t * q \<le> 51" using qS by (simp add: mult.commute)
    have "\<bar>t * (f - q)\<bar> = t * \<bar>f - q\<bar>" using t0 by (simp add: abs_mult)
    moreover have "t * \<bar>f - q\<bar> \<le> 200 * (1 / 100000000000)"
      using t0 t200 fq by (intro mult_mono) simp_all
    moreover have "t * f = t * q + t * (f - q)" by (simp add: algebra_simps)
    ultimately have tf: "t * f \<le> 52" using tq by linarith
    have tf0: "0 \<le> t * f" using t0 f0 by simp
    have e: "\<bar>rd (t * f) - t * f\<bar> \<le> 1 / 100000000000"
      using tf0 tf by (intro rd_err_small) simp_all
    have "0 \<le> rd (t * f)" using tf0 by (rule rd_nonneg)
    then show "\<bar>fmul t f - t * f\<bar> \<le> 1 / 100000000000 \<and> 0 \<le> fmul t f \<and> fmul t f \<le> 1000"
      unfolding fmul_def using e tf by linarith
  qed
  have "\<bar>sum_list (map (\<lambda>t. fmul t f) ts) - sum_list (map (\<lambda>t. t * f) ts)\<bar>
      \<le> of_nat (length ts) * (1 / 100000000000)"
    using each by (intro sum_list_diff_bound) simp
  then have d1: "\<bar>sum_list new - S * f\<bar> \<le> m * (1 / 100000000000)"
    unfolding new_def S_def m_def sum_list_scaled .
  have "m * (1 / 100000000000) \<le> 6 * (1 / 100000000000)"
    using m6 by (intro mult_right_mono) simp_all
  then have d1': "\<bar>sum_list new - S * f\<bar> \<le> 6 / 100000000000" using d1 by simp
  have split: "S * f - G = S * (f - q) + q * (S - T)"
    using qT by (simp add: algebra_simps)
  have "\<bar>S * (f - q)\<bar> = S * \<bar>f - q\<bar>" using S by (simp add: abs_mult)
  also have "\<dots> \<le> 1200 * (1 / 100000000000)"
    using S fq by (intro mult_mono) simp_all
  finally have x: "\<bar>S * (f - q)\<bar> \<le> 1200 / 100000000000" by simp
  have "\<bar>q * (S - T)\<bar> = q * \<bar>S - T\<bar>" using q0 by (simp add: abs_mult)
  also have "\<dots> \<le> 125 * (6 / 100000000000)"
    using q0 q125 TS by (intro mult_mono) (simp_all add: abs_minus_commute)
  finally have y: "\<bar>q * (S - T)\<bar> \<le> 750 / 100000000000" by simp
  have d2: "\<bar>S * f - G\<bar> \<le> 1950 / 100000000000" unfolding split using x y by linarith
  have new': "\<And>t. t \<in> set new \<Longrightarrow> 0 \<le> t \<and> t \<le> 1000"
    unfolding new_def using each by auto
  have "length new \<le> 6" unfolding new_def using len by simp
  with new' have d3: "\<bar>total new - sum_list new\<bar> \<le> 6 / 100000000000" by (rule total_err)
  have d4: "\<bar>total new - G\<bar> \<le> 1962 / 100000000000" using d1' d2 d3 by linarith
  have r0: "0 \<le> total new - ov" and r1: "total new - ov \<le> 10000" using d4 GC C ov by linarith+
  have d5: "\<bar>rd (total new - ov) - (total new - ov)\<bar> \<le> 1 / 100000000000"
    using r0 r1 by (rule rd_err_small)
  have conv: "\<bar>calculatedVideoDuration n new - C\<bar> \<le> 1 / 10000000"
    unfolding calculatedVideoDuration_eq over fsub_def using d4 d5 GC by linarith
  have T0: "total ts \<noteq> 0" using T unfolding T_def by simp
  have "adjustedTimings n a ts = Some new"
    using gap T0 unfolding adjustedTimings_cases calculatedVideoDuration_eq
      new_def f_def q_def G_def C_def T_def over fadd_def fdiv_def by simp
  then show ?thesis using conv unfolding C_def by simp
qed

lemma adjustedTimings_converges_example:
  "adjustedTimings 4 (rd (265 / 10)) [rd (44 / 10), rd (82 / 10), rd (82 / 10), rd (82 / 10)]
     = Some [5039372686488711 / 1125899906842624, 4695779094228117 / 562949953421312,
             4695779094228117 / 562949953421312, 4695779094228117 / 562949953421312]
   \<and> calculatedVideoDuration 4
         [5039372686488711 / 1125899906842624, 4695779094228117 / 562949953421312,
          4695779094228117 / 562949953421312, 4695779094228117 / 562949953421312]
       = 53 / 2
   \<and> clamp (rd (265 / 10)) 25 40 = 53 / 2"
  by (simp add: adjustedTimings_cases calculatedVideoDuration_eq clamp_def total_def float_eval)

section \<open>Claims about the compositor\<close>

text \<open>
  Claim C7. The compositor's final target is the measured audio duration clamped to 25 and
  40. When the video duration after the crossfade overlap (the sum of the timings less
  the overlap), differs from the audio duration by more than 0.5 seconds, every timing is
  multiplied by \<open>(target + overlap) / sum\<close>; otherwise the timings are left as they are.
  The scaled values are not clamped to 2.5 and 12 again. The overlap is \<open>n - 1\<close> seconds
  for \<open>n\<close> images. Sums, differences, products and the quotient are those of doubles, as
  the code computes them, and the gap is compared with 0.5 after its rounding. The
  rescale is stated for timings whose sum is not 0, which the allocator's always are.
\<close>

theorem adjustedTimings_reconciliation:
  "encodeTargetDuration audioDuration = clamp audioDuration 25 40
   \<and> (1 / 2 < \<bar>fsub audioDuration (fsub (total timings) (fmul (of_nat (n - 1)) 1))\<bar>
        \<and> total timings \<noteq> 0 \<longrightarrow>
        adjustedTimings n audioDuration timings
          = Some (map (\<lambda>t. fmul t (fdiv (fadd (clamp audioDuration 25 40)
                                              (fmul (of_nat (n - 1)) 1))
                                        (total timings))) timings))
   \<and> (\<not> 1 / 2 < \<bar>fsub audioDuration (fsub (total timings) (fmul (of_nat (n - 1)) 1))\<bar> \<longrightarrow>
        adjustedTimings n audioDuration timings = Some timings)"
  by (simp add: adjustedTimings_cases encodeTargetDuration_clamp)

theorem adjustedTimings_reconciliation_witness:
  "adjustedTimings 4 (rd (265 / 10)) [rd (44 / 10), rd (82 / 10), rd (82 / 10), rd (82 / 10)]
     = Some [5039372686488711 / 1125899906842624, 4695779094228117 / 562949953421312,
             4695779094228117 / 562949953421312, 4695779094228117 / 562949953421312]
   \<and> adjustedTimings 3 (rd (262 / 10)) [12, 8, 8] = Some [12, 8, 8]
   \<and> adjustedTimings 1 30 [12] = Some [30]"
proof -
  let ?ts = "[rd (44 / 10), rd (82 / 10), rd (82 / 10), rd (82 / 10)]"
  have a: "1 / 2 < \<bar>fsub (rd (265 / 10)) (fsub (total ?ts) (fmul (of_nat (4 - 1)) 1))\<bar>
           \<and> total ?ts \<noteq> 0"
    by (simp add: total_def float_eval)
  have a': "map (\<lambda>t. fmul t (fdiv (fadd (clamp (rd (265 / 10)) 25 40) (fmul (of_nat (4 - 1)) 1))
                               (total ?ts))) ?ts
      = [5039372686488711 / 1125899906842624, 4695779094228117 / 562949953421312,
         4695779094228117 / 562949953421312, 4695779094228117 / 562949953421312]"
    by (simp add: total_def clamp_def float_eval)
  have b: "\<not> 1 / 2 < \<bar>fsub (rd (262 / 10)) (fsub (total [12, 8, 8]) (fmul (of_nat (3 - 1)) 1))\<bar>"
    by (simp add: total_def float_eval)
  have c: "1 / 2 < \<bar>fsub 30 (fsub (total [12]) (fmul (of_nat (1 - 1)) 1))\<bar> \<and> total [12] \<noteq> 0"
    by (simp add: total_def float_eval)
  have c': "map (\<lambda>t. fmul t (fdiv (fadd (clamp 30 25 40) (fmul (of_nat (1 - 1)) 1))
                               (total [12]))) [12] = [30]"
    by (simp add: total_def clamp_def float_eval)
  show ?thesis
    using adjustedTimings_reconciliation [of "rd (265 / 10)" ?ts 4]
      adjustedTimings_reconciliation [of "rd (262 / 10)" "[12, 8, 8]" 3]
      adjustedTimings_reconciliation [of 30 "[12]" 1] a a' b c c'
    by simp
qed

text \<open>
  Claim C8. For \<open>n\<close> images, at least one, and a timing for each, the filter graph has
  exactly \<open>n - 1\<close> crossfade transitions (none for a single image), each of duration 1;
  transition \<open>i\<close> starts at the running sum of the first \<open>i\<close> timings, each less 1, added
  up in doubles as the loop adds them, or at 0 if that is negative; and the video
  duration the compositor computes from a list of timings is their sum minus \<open>n - 1\<close>, the
  sum and the difference being those of doubles.
\<close>

theorem crossfade_transitions:
  assumes "imagePaths \<noteq> []" and "length imagePaths \<le> length adjusted"
  shows "\<exists>args. buildArgs imagePaths audioPath adjusted outputPath = Inr args
       \<and> length (xfadeDurations (filter_complex args)) = length imagePaths - 1
       \<and> xfadeDurations (filter_complex args) = replicate (length imagePaths - 1) 1
       \<and> xfadeOffsets (filter_complex args)
           = map (\<lambda>i. max 0 (foldl (\<lambda>c j. fadd c (fsub (adjusted ! j) 1)) 0 [0..<i]))
               [1..<length imagePaths]
       \<and> calculatedVideoDuration (length imagePaths) adjusted
           = fsub (total adjusted) (fmul (of_nat (length imagePaths - 1)) 1)
       \<and> (length imagePaths < 2 ^ 53 \<longrightarrow>
            calculatedVideoDuration (length imagePaths) adjusted
              = fsub (total adjusted) (of_nat (length imagePaths) - 1))"
proof -
  let ?n = "length imagePaths"
  let ?fc = "buildFilterComplex ?n adjusted"
  have args: "buildArgs imagePaths audioPath adjusted outputPath =
      Inr \<lparr>imageInputs = map (\<lambda>i. (adjusted ! i, imagePaths ! i)) [0..<?n],
            audioInput = audioPath, filter_complex = ?fc, outputFile = outputPath\<rparr>"
    using assms(2) by (simp add: buildArgs_def)
  have d: "xfadeDurations ?fc = replicate (?n - 1) 1"
    using buildFilterComplex_xfades by blast
  have off: "xfadeOffsets ?fc
      = map (\<lambda>i. max 0 (foldl (\<lambda>c j. fadd c (fsub (adjusted ! j) 1)) 0 [0..<i])) [1..<?n]"
    using buildFilterComplex_xfades [of ?n adjusted] by (simp add: offsetSum_foldl)
  have dur: "calculatedVideoDuration ?n adjusted
      = fsub (total adjusted) (fmul (of_nat (?n - 1)) 1)"
    by (rule calculatedVideoDuration_eq)
  have "1 \<le> ?n" using assms(1) by (cases imagePaths) simp_all
  then have "(of_nat (?n - 1) :: num) = of_nat ?n - 1" by simp
  then have ex: "?n < 2 ^ 53 \<longrightarrow>
      calculatedVideoDuration ?n adjusted = fsub (total adjusted) (of_nat ?n - 1)"
    unfolding calculatedVideoDuration_def rawVideoDuration_def
    by (simp add: totalCrossfadeDuration_exact)
  show ?thesis using args d off dur ex by simp
qed

theorem crossfade_transitions_witness:
  "(\<exists>args. buildArgs [TmpImage 1 5, TmpImage 2 6, TmpImage 3 7] (TmpVoiceover 4) [12, 8, 8] (TmpVideo 9)
             = Inr args
        \<and> xfadeDurations (filter_complex args) = [1, 1]
        \<and> xfadeOffsets (filter_complex args) = [11, 18])
   \<and> calculatedVideoDuration 3 [12, 8, 8] = 26
   \<and> (\<exists>args. buildArgs [TmpImage 1 5] (TmpVoiceover 4) [30] (TmpVideo 9) = Inr args
        \<and> xfadeDurations (filter_complex args) = [])
   \<and> calculatedVideoDuration 1 [30] = 30"
proof -
  have a: "[TmpImage 1 5, TmpImage 2 6, TmpImage 3 7] \<noteq> []" by simp
  have b: "length [TmpImage 1 5, TmpImage 2 6, TmpImage 3 7] \<le> length [12, 8, 8 :: num]" by simp
  have c: "[TmpImage 1 5] \<noteq> []" by simp
  have d: "length [TmpImage 1 5] \<le> length [30 :: num]" by simp
  have u: "[1..<3] = [1, 2]" "[0..<2] = [0, 1]" by code_simp+
  have t: "total [12, 8, 8] = 28" "total [30] = 30" by (simp_all add: total_def float_eval)
  show ?thesis
    using crossfade_transitions [OF a b, of "TmpVoiceover 4" "TmpVideo 9"]
      crossfade_transitions [OF c d, of "TmpVoiceover 4" "TmpVideo 9"]
    by (auto simp: u t numeral_2_eq_2 numeral_3_eq_3 float_eval)
qed

section \<open>The broadcaster: the registry under its handlers\<close>

lemma send_loop_frame:
  "videoSessions (foldl (\<lambda>st ws. if readyState st ws then st\<lparr>sent := sent st @ [(ws, pd)]\<rparr> else st)
       st clients) = videoSessions st
   \<and> readyState (foldl (\<lambda>st ws. if readyState st ws then st\<lparr>sent := sent st @ [(ws, pd)]\<rparr> else st)
       st clients) = readyState st"
  by (induction clients arbitrary: st) simp_all

lemma broadcastProgress_sessions:
  "videoSessions (broadcastProgress st sid step p m ts d) =
     (if isTerminal step then (videoSessions st)(sid := None) else videoSessions st)"
  unfolding broadcastProgress_def Let_def
  by (cases "videoSessions st sid") (auto simp: send_loop_frame)

lemma broadcastProgress_absent:
  "videoSessions st sid = None \<Longrightarrow> broadcastProgress st sid step p m ts d = st"
  by (simp add: broadcastProgress_def)

lemma onMessage_sessions:
  "videoSessions (onMessage st ws m) =
     (if cm_type m = ''subscribe'' \<and> cm_sessionId m \<noteq> []
      then (videoSessions st)(cm_sessionId m \<mapsto> setAdd (clientsOf st (cm_sessionId m)) ws)
      else videoSessions st)"
  unfolding onMessage_def Let_def clientsOf_def
  by (cases "videoSessions st (cm_sessionId m)") auto

lemma setAdd_nonempty: "setAdd clients ws \<noteq> []"
  by (auto simp: setAdd_def)

lemma reachable_nonempty:
  assumes "reachable st"
  shows "videoSessions st sid = Some clients \<Longrightarrow> clients \<noteq> []"
  using assms
proof (induction arbitrary: sid clients rule: reachable.induct)
  case start
  then show ?case by (simp add: initialServer_def)
next
  case (connection st ws)
  then show ?case by (simp add: onConnection_def)
next
  case (message st ws m)
  then show ?case
    by (auto simp: onMessage_sessions setAdd_nonempty split: if_splits)
next
  case (close st ws)
  then show ?case
    by (auto simp: onClose_def Let_def split: option.splits if_splits)
next
  case (broadcast st sessionId step progress msg ts d)
  then show ?case
    by (auto simp: broadcastProgress_sessions split: if_splits)
qed

section \<open>Claims about the broadcaster\<close>

text \<open>
  Claim C9, as amended. A terminal event (\<open>completed\<close> or \<open>error\<close>) deletes the
  session's record: right after the broadcast no handle is registered under the
  identifier. The identifier is not barred: a later subscription message with it creates
  a fresh record that holds the subscribing handle alone.
\<close>

theorem terminal_broadcast_then_subscribe:
  assumes "isTerminal step" and "sessionId \<noteq> []"
  shows "videoSessions (broadcastProgress st sessionId step progress message timestamp completionData)
           sessionId = None
       \<and> clientsOf (onMessage
             (broadcastProgress st sessionId step progress message timestamp completionData)
             ws (subscribeTo sessionId)) sessionId = [ws]"
  using assms
  by (simp add: broadcastProgress_sessions onMessage_sessions clientsOf_def subscribeTo_def
      setAdd_def)

theorem terminal_broadcast_then_subscribe_witness:
  "videoSessions (broadcastProgress (onMessage (onConnection initialServer 1) 1 (subscribeTo ''s''))
       ''s'' ''error'' 0 ''failed'' ''now'' None) ''s'' = None
   \<and> clientsOf (onMessage (broadcastProgress
         (onMessage (onConnection initialServer 1) 1 (subscribeTo ''s''))
         ''s'' ''error'' 0 ''failed'' ''now'' None) 2 (subscribeTo ''s'')) ''s'' = [2]"
proof -
  have t: "isTerminal ''error''" by (simp add: isTerminal_def)
  have n: "''s'' \<noteq> []" by simp
  show ?thesis by (rule terminal_broadcast_then_subscribe [OF t n])
qed

text \<open>
  The claim as it stands fails: after \<open>completed\<close> has been broadcast for the session
  \<open>s\<close>, the socket 2 subscribes to \<open>s\<close> and is registered under it.
\<close>

theorem subscribe_after_completed:
  "clientsOf (onMessage
      (broadcastProgress (onMessage (onConnection initialServer 1) 1 (subscribeTo ''s''))
         ''s'' ''completed'' 100 ''done'' ''now'' None)
      2 (subscribeTo ''s'')) ''s'' = [2]"
  by (simp add: clientsOf_def onMessage_def broadcastProgress_def onConnection_def initialServer_def
      subscribeTo_def setAdd_def isTerminal_def)

text \<open>
  Claim C10. In every state the server can reach, publishing an event for a session
  identifier with no registered handle changes nothing: no message is sent, no record is
  created, the registry stays as it is. The state has no queue, so the event is gone.
\<close>

theorem broadcastProgress_without_subscribers:
  assumes "reachable st" and "clientsOf st sessionId = []"
  shows "broadcastProgress st sessionId step progress message timestamp completionData = st"
proof -
  have "videoSessions st sessionId = None"
  proof (cases "videoSessions st sessionId")
    case None
    then show ?thesis .
  next
    case (Some clients)
    then have "clients \<noteq> []" using reachable_nonempty [OF assms(1)] by blast
    with Some assms(2) show ?thesis by (simp add: clientsOf_def)
  qed
  then show ?thesis by (rule broadcastProgress_absent)
qed

theorem broadcastProgress_without_subscribers_witness:
  "broadcastProgress (onClose (onMessage (onConnection initialServer 1) 1 (subscribeTo ''s'')) 1)
     ''s'' ''generating-audio'' 50 ''half'' ''now'' None
   = onClose (onMessage (onConnection initialServer 1) 1 (subscribeTo ''s'')) 1"
proof -
  let ?st = "onClose (onMessage (onConnection initialServer 1) 1 (subscribeTo ''s'')) 1"
  have r: "reachable ?st"
    by (intro reachable.close reachable.message reachable.connection reachable.start)
  have e: "clientsOf ?st ''s'' = []"
    by (simp add: clientsOf_def onClose_def onMessage_def onConnection_def initialServer_def
        subscribeTo_def setAdd_def setDelete_def)
  show ?thesis by (rule broadcastProgress_without_subscribers [OF r e])
qed

section \<open>The pipeline: the events of a run\<close>

lemma events_emit: "events (emit w step progress) = events w @ [(step, progress)]"
  by (simp add: emit_def)

lemma events_unlinkIfExists: "events (unlinkIfExists w p) = events w"
  by (simp add: unlinkIfExists_def)

lemma events_unlink_all: "events (foldl unlinkIfExists w ps) = events w"
  by (induction ps arbitrary: w) (simp_all add: events_unlinkIfExists)

lemma generateVideoTry_completed:
  assumes "generateVideoTry env imagePrompts w = (Inr r, a, imgs, w')"
  shows "\<exists>pre. events w' = pre @ [(''completed'', 100)]"
  using assms unfolding generateVideoTry_def Let_def
  by (auto simp: events_emit split: prod.splits sum.splits)

lemma generateVideo_events:
  "\<exists>pre step progress.
     events (snd (generateVideo env imagePrompts w)) = pre @ [(step, progress), (''finalizing'', 95)]
     \<and> isTerminal step"
proof -
  obtain result a imgs w' where t: "generateVideoTry env imagePrompts w = (result, a, imgs, w')"
    by (cases "generateVideoTry env imagePrompts w") auto
  let ?w1 = "case result of Inl e \<Rightarrow> emit w' ''error'' 0 | Inr r \<Rightarrow> w'"
  have ev: "events (snd (generateVideo env imagePrompts w)) = events ?w1 @ [(''finalizing'', 95)]"
    unfolding generateVideo_def t Let_def
    by (cases a) (simp_all add: events_unlinkIfExists events_unlink_all events_emit)
  have "\<exists>pre step progress. events ?w1 = pre @ [(step, progress)] \<and> isTerminal step"
  proof (cases result)
    case (Inl e)
    then show ?thesis by (simp add: events_emit isTerminal_def)
  next
    case (Inr r)
    then obtain pre where "events w' = pre @ [(''completed'', 100)]"
      using generateVideoTry_completed t by blast
    with Inr show ?thesis by (simp add: isTerminal_def)
  qed
  then show ?thesis unfolding ev by auto
qed

subsection \<open>The evaluation of the concrete runs\<close>

lemmas pipeline_eval = handleVideoRequest_def generateVideo_def generateVideoTry_def
  createVideoWithFFmpeg_def runEncoder_def encodeEvent_def encodeProgress_def buildArgs_def
  generateAllImages_def generateAudioFile_def emit_def writeFile_def unlinkIfExists_def
  encodeTargetDuration_def adjustedTimings_def targetRawDuration_def calculatedVideoDuration_def
  rawVideoDuration_def totalCrossfadeDuration_def numCrossfades_def fadeDuration_def scaleBy_def
  total_def probeError_def showCode_def errorCall_def Let_def insert_Diff_if float_eval

lemma one_prompt_segments: "map (\<lambda>prompt. trim (voiceover prompt)) onePrompt = [''hello'']"
  by code_simp

lemma prompt_lengths: "length onePrompt = 1" "length twoPrompts = 2"
  by (simp_all add: onePrompt_def twoPrompts_def)

lemma upt_small: "[0..<1] = [0]" "[0..<2] = [0, 1]"
  by code_simp+

lemma error_texts:
  "showNat 1 = ''1''"
  "showNat 2 = ''2''"
  "errorCode ''FFmpeg timeout after 120 seconds. Stderr: '' = ''INTERNAL_ERROR''"
  "errorMessage ''FFmpeg timeout after 120 seconds. Stderr: '' = ''Video generation failed''"
  "errorDetails ''FFmpeg timeout after 120 seconds. Stderr: '' = ''An unexpected error occurred''"
  by code_simp+

lemma success_run:
  "handleVideoRequest successEnv onePrompt {} =
     ([(''initializing'', 0, None), (''calculating-timings'', 5, None),
       (''generating-audio'', 0, None), (''generating-audio'', 50, None),
       (''generating-audio'', 75, None), (''generating-audio'', 100, None),
       (''generating-images'', 0, None), (''generating-images'', 50, None),
       (''generating-images'', 100, None), (''creating-video'', 0, None),
       (''creating-video'', 10, None), (''creating-video'', 20, None),
       (''creating-video'', 30, None), (''creating-video'', 125 / 2, None),
       (''creating-video'', 95, None), (''creating-video'', 100, None),
       (''completed'', 100, None), (''finalizing'', 95, None),
       (''completed'', 100, Some (VideoData ''https://example.org/video/id.mp4'' 30 [26]))],
      {PublicVideo ''id.mp4''})"
  by (simp add: pipeline_eval one_prompt_segments prompt_lengths upt_small hello_result
      successEnv_def)

lemma delivered_success_run:
  "map (\<lambda>(ws, pd). (pd_step pd, pd_data pd))
     (drop 15 (sent (publishAll subscribedServer ''s''
                       (fst (handleVideoRequest successEnv onePrompt {})))))
   = [(''creating-video'', None), (''completed'', None)]"
  unfolding success_run by code_simp

lemma successful_run_files:
  "snd (handleVideoRequest successEnv onePrompt {}) = {PublicVideo ''id.mp4''}"
  unfolding success_run by simp

section \<open>Claims about the pipeline\<close>

text \<open>
  Claim C2 says that the terminal event (\<open>completed\<close> or \<open>error\<close>) is the last event
  published for a run, and that no event of another step, \<open>finalizing\<close> in particular,
  is published after it. The code does otherwise in every run: \<open>generateVideo\<close> emits
  its terminal event in the \<open>try\<close> or the \<open>catch\<close> block and \<open>finalizing\<close> in the
  \<open>finally\<close> block, after it, and the request handler then publishes a second terminal
  event, the one that carries the data. So the calls of \<open>broadcastProgress\<close> for a run
  always end in a terminal event without data, \<open>finalizing\<close>, and a terminal event.
\<close>

theorem finalizing_published_after_terminal:
  "\<exists>pre step progress final.
     fst (handleVideoRequest env imagePrompts fs)
       = pre @ [(step, progress, None), (''finalizing'', 95, None), final]
     \<and> isTerminal step \<and> isTerminal (fst final)"
proof -
  let ?w0 = "\<lparr>files = fs, events = [], spawned = []\<rparr>"
  obtain result w where g: "generateVideo env imagePrompts ?w0 = (result, w)"
    by (cases "generateVideo env imagePrompts ?w0") auto
  obtain pre step progress where
    ev: "events w = pre @ [(step, progress), (''finalizing'', 95)]" and tstep: "isTerminal step"
    using generateVideo_events [of env imagePrompts ?w0] unfolding g by auto
  let ?calls = "map (\<lambda>(step, progress). (step, progress, None :: completionData option)) (events w)"
  have calls: "?calls = map (\<lambda>(step, progress). (step, progress, None)) pre
      @ [(step, progress, None), (''finalizing'', 95, None)]"
    unfolding ev by simp
  have "\<exists>final. fst (handleVideoRequest env imagePrompts fs) = ?calls @ [final]
      \<and> isTerminal (fst final)"
  proof (cases result)
    case (Inl e)
    then show ?thesis
      unfolding handleVideoRequest_def g Let_def by (simp add: errorCall_def isTerminal_def)
  next
    case (Inr r)
    then show ?thesis
      unfolding handleVideoRequest_def g Let_def
      by (cases "videoPath r \<in> files w") (simp_all add: errorCall_def isTerminal_def)
  qed
  then show ?thesis using calls tstep by auto
qed

text \<open>
  Claim C3 says that after every run, failed or not, the temporary audio file, the image
  files and any partial video are gone. The code leaves files behind on two paths. When
  the second image request is refused, the first image stays: \<open>generateAllImages\<close>
  keeps its paths in a local list that the caller's \<open>finally\<close> block never sees. When
  the encoder ends with code 0 and the probe of its output fails, the output stays: that
  path rejects without the \<open>unlinkSync\<close> of the other failure paths.
\<close>

theorem temporary_files_left_behind:
  "snd (handleVideoRequest imageFailEnv twoPrompts {}) = {TmpImage 1 2}
   \<and> snd (handleVideoRequest probeFailEnv onePrompt {}) = {TmpVideo 9}"
proof -
  have "snd (handleVideoRequest imageFailEnv twoPrompts {}) = {TmpImage 1 2}"
    by (simp add: pipeline_eval prompt_lengths upt_small imageFailEnv_def successEnv_def)
  moreover have "snd (handleVideoRequest probeFailEnv onePrompt {}) = {TmpVideo 9}"
    by (simp add: pipeline_eval one_prompt_segments prompt_lengths upt_small hello_result
        probeFailEnv_def successEnv_def)
  ultimately show ?thesis by simp
qed

text \<open>
  Claim C4 says that an encoder timeout is reported as a video-processing error, code
  \<open>VIDEO_PROCESSING_ERROR\<close>. In the code the partial output is deleted, and with it the
  other temporary files, but the handler classifies an error by its message and the
  timeout's message, \<open>FFmpeg timeout after 120 seconds\<close>, has none of the three
  phrases it looks for: the error event carries \<open>INTERNAL_ERROR\<close>.
\<close>

theorem encoder_timeout_reported_as_internal_error:
  "last (fst (handleVideoRequest timeoutEnv onePrompt {}))
     = (''error'', 0, Some (ErrorData ''INTERNAL_ERROR'' ''Video generation failed''
                              ''An unexpected error occurred''))
   \<and> snd (handleVideoRequest timeoutEnv onePrompt {}) = {}"
  by (simp add: pipeline_eval one_prompt_segments prompt_lengths upt_small hello_result
      error_texts timeoutEnv_def successEnv_def)

end
